theory Spec2Isabelle
  imports Main "HOL-Library.Sublist" "HOL-Library.Signed_Division" "HOL-Library.Word"
begin

unbundle bit_operations_syntax

section \<open>Data\<close>

text \<open>
  The editor of \<^verbatim>\<open>vine.c\<close>, embedded function by function. A C buffer together
  with its length field is a list: \<^verbatim>\<open>chars\<close>/\<^verbatim>\<open>size\<close> and
  \<^verbatim>\<open>render\<close>/\<^verbatim>\<open>rsize\<close> of \<^verbatim>\<open>erow\<close> are the lists \<open>chars\<close> and
  \<open>render\<close> (the terminating NUL is not part of the list), and \<^verbatim>\<open>hl\<close>, which the
  program allocates separately, is a list of its own. The row array \<^verbatim>\<open>E.row\<close> is the
  list of the rows it holds, while \<^verbatim>\<open>E.numrows\<close> stays a field, because
  \<^verbatim>\<open>editorInsertRow\<close> runs the highlighter before it increments the field.
  Positions and sizes, which the memory of the machine bounds, are unbounded numbers.
  \<^verbatim>\<open>E.dirty\<close>, which every edit increments, is the 32-bit \<^verbatim>\<open>int\<close> of the
  machine: \<^verbatim>\<open>E.dirty++\<close> wraps from \<open>2^31 - 1\<close> to \<open>- 2^31\<close>, and \<open>sint\<close>
  reads its value. An operation returns \<open>None\<close> where the C program has no defined
  result (a read outside the row array, a division by zero, a length that does not
  fit an \<^verbatim>\<open>int\<close>, a recursion that never returns).
\<close>

datatype editorHighlight =
  HL_NORMAL | HL_COMMENT | HL_MLCOMMENT | HL_KEYWORD1 | HL_KEYWORD2
  | HL_STRING | HL_NUMBER | HL_MATCH

definition HL_HIGHLIGHT_NUMBERS :: int where
  "HL_HIGHLIGHT_NUMBERS = 1"

definition HL_HIGHLIGHT_STRINGS :: int where
  "HL_HIGHLIGHT_STRINGS = 2"

record editorSyntax =
  filetype :: string
  filematch :: "string list"
  syn_keywords :: "string list"
  singleline_comment_start :: string
  multiline_comment_start :: string
  multiline_comment_end :: string
  flags :: int

record erow =
  idx :: int
  chars :: string
  render :: string
  hl :: "editorHighlight list"
  hl_open_comment :: bool

record editorConfig =
  cx :: int
  cy :: int
  rowoff :: int
  coloff :: int
  numrows :: nat
  row :: "erow list"
  dirty :: "32 word"
  filename :: "string option"
  esyntax :: "editorSyntax option"
  tab_stop :: int

section \<open>C strings\<close>

definition NUL :: char where
  "NUL = CHR 0x00"

definition TAB :: char where
  "TAB = CHR 0x09"

text \<open>\<^verbatim>\<open>strlen\<close>: the characters before the first NUL (the end of the list is the
  terminator).\<close>

definition strlen :: "string \<Rightarrow> nat" where
  "strlen s = length (takeWhile (\<lambda>c. c \<noteq> NUL) s)"

text \<open>The byte at the head of a NUL-terminated buffer: the end of the list reads as the
  terminator.\<close>

fun peek :: "string \<Rightarrow> char" where
  "peek [] = NUL"
| "peek (c # cs) = c"

text \<open>\<^verbatim>\<open>strncmp(a, b, n) == 0\<close>: at most \<open>n\<close> characters are compared and the
  comparison stops at a NUL.\<close>

fun strncmp_eq :: "string \<Rightarrow> string \<Rightarrow> nat \<Rightarrow> bool" where
  "strncmp_eq a b 0 = True"
| "strncmp_eq a b (Suc n) =
     (if peek a \<noteq> peek b then False
      else if peek a = NUL then True
      else strncmp_eq (tl a) (tl b) n)"

text \<open>\<^verbatim>\<open>memset(&hl[i], v, n)\<close>. A write past the end of the buffer would show as a
  longer list.\<close>

definition memset_hl :: "editorHighlight list \<Rightarrow> nat \<Rightarrow> editorHighlight \<Rightarrow> nat \<Rightarrow> editorHighlight list" where
  "memset_hl h i v n = take i h @ replicate n v @ drop (i + n) h"

section \<open>Syntax highlighting\<close>

definition isspace :: "char \<Rightarrow> bool" where
  "isspace c = (c \<in> set [CHR '' '', CHR 0x09, CHR 0x0A, CHR 0x0B, CHR 0x0C, CHR 0x0D])"

definition isdigit :: "char \<Rightarrow> bool" where
  "isdigit c = (c \<in> set ''0123456789'')"

text \<open>The separator characters of \<^verbatim>\<open>is_separator\<close>; the acute accent of the source
  is the two bytes C2 B4.\<close>

definition separator_chars :: string where
  "separator_chars = '',.()+-/*^=@#~&%$'' @ [CHR 0x60, CHR 0xC2, CHR 0xB4] @ ''<>[]{}!''
     @ [CHR 0x5C] @ '':|;?''"

definition is_separator :: "char \<Rightarrow> bool" where
  "is_separator c = (isspace c \<or> c = NUL \<or> c \<in> set separator_chars)"

text \<open>The keyword loop of \<^verbatim>\<open>editorUpdateSyntax\<close> at the render text \<open>r\<close> (the row's
  render from position \<open>i\<close> on): the length and the class of the first keyword that
  matches, if any. An empty keyword makes the C loop read \<^verbatim>\<open>keywords[j][-1]\<close>; the
  registry has none, and \<open>kw2\<close> is taken as false there.\<close>

fun keyword_at :: "string list \<Rightarrow> string \<Rightarrow> (nat \<times> editorHighlight) option" where
  "keyword_at [] r = None"
| "keyword_at (kw # kws) r =
     (let klen0 = strlen kw;
          kw2 = (klen0 > 0 \<and> kw ! (klen0 - 1) = CHR ''|'');
          klen = (if kw2 then klen0 - 1 else klen0)
      in if strncmp_eq r kw klen \<and> is_separator (peek (drop klen r))
         then Some (klen, if kw2 then HL_KEYWORD2 else HL_KEYWORD1)
         else keyword_at kws r)"

text \<open>The scan state of the \<^verbatim>\<open>while\<close> loop of \<^verbatim>\<open>editorUpdateSyntax\<close>.
  \<open>in_string\<close> is the open quote character, NUL for none.\<close>

record scan_state =
  s_hl :: "editorHighlight list"
  s_i :: nat
  prev_sep :: bool
  in_string :: char
  in_comment :: bool

text \<open>The conditions of the loop body, in the order the body tests them.\<close>

definition scs_at :: "editorSyntax \<Rightarrow> string \<Rightarrow> scan_state \<Rightarrow> bool" where
  "scs_at syn rnd st =
     (let scs = singleline_comment_start syn; scs_len = strlen scs
      in scs_len \<noteq> 0 \<and> in_string st = NUL \<and> \<not> in_comment st
         \<and> strncmp_eq (drop (s_i st) rnd) scs scs_len)"

definition ml_enabled :: "editorSyntax \<Rightarrow> scan_state \<Rightarrow> bool" where
  "ml_enabled syn st =
     (strlen (multiline_comment_start syn) \<noteq> 0 \<and> strlen (multiline_comment_end syn) \<noteq> 0
      \<and> in_string st = NUL)"

definition mce_at :: "editorSyntax \<Rightarrow> string \<Rightarrow> scan_state \<Rightarrow> bool" where
  "mce_at syn rnd st =
     (let mce = multiline_comment_end syn in strncmp_eq (drop (s_i st) rnd) mce (strlen mce))"

definition mcs_at :: "editorSyntax \<Rightarrow> string \<Rightarrow> scan_state \<Rightarrow> bool" where
  "mcs_at syn rnd st =
     (let mcs = multiline_comment_start syn in strncmp_eq (drop (s_i st) rnd) mcs (strlen mcs))"

definition strings_on :: "editorSyntax \<Rightarrow> bool" where
  "strings_on syn = (flags syn AND HL_HIGHLIGHT_STRINGS \<noteq> 0)"

definition numbers_on :: "editorSyntax \<Rightarrow> bool" where
  "numbers_on syn = (flags syn AND HL_HIGHLIGHT_NUMBERS \<noteq> 0)"

definition number_at :: "string \<Rightarrow> scan_state \<Rightarrow> bool" where
  "number_at rnd st =
     (let i = s_i st; c = rnd ! i;
          prev_hl = (if i > 0 then s_hl st ! (i - 1) else HL_NORMAL)
      in (isdigit c \<and> (prev_sep st \<or> prev_hl = HL_NUMBER))
         \<or> (c \<in> set ''.xabcdef'' \<and> prev_hl = HL_NUMBER))"

definition keyword_here :: "editorSyntax \<Rightarrow> string \<Rightarrow> scan_state \<Rightarrow> (nat \<times> editorHighlight) option" where
  "keyword_here syn rnd st =
     (if prev_sep st then keyword_at (syn_keywords syn) (drop (s_i st) rnd) else None)"

text \<open>One iteration of the loop; the flag says whether the iteration left the loop with
  \<^verbatim>\<open>break\<close>.\<close>

definition scan_step :: "editorSyntax \<Rightarrow> string \<Rightarrow> scan_state \<Rightarrow> bool \<times> scan_state" where
  "scan_step syn rnd st =
    (let i = s_i st; h = s_hl st; c = rnd ! i;
         mcs_len = strlen (multiline_comment_start syn);
         mce_len = strlen (multiline_comment_end syn)
     in
     if scs_at syn rnd st
     then (True, st\<lparr>s_hl := memset_hl h i HL_COMMENT (length rnd - i)\<rparr>)
     else if ml_enabled syn st \<and> in_comment st
     then (if mce_at syn rnd st
           then (False, st\<lparr>s_hl := memset_hl (h[i := HL_MLCOMMENT]) i HL_MLCOMMENT mce_len,
                          s_i := i + mce_len, in_comment := False, prev_sep := True\<rparr>)
           else (False, st\<lparr>s_hl := h[i := HL_MLCOMMENT], s_i := i + 1\<rparr>))
     else if ml_enabled syn st \<and> mcs_at syn rnd st
     then (False, st\<lparr>s_hl := memset_hl h i HL_MLCOMMENT mcs_len,
                    s_i := i + mcs_len, in_comment := True\<rparr>)
     else if strings_on syn \<and> in_string st \<noteq> NUL
     then (if c = CHR 0x5C \<and> i + 1 < length rnd
           then (False, st\<lparr>s_hl := h[i := HL_STRING, i + 1 := HL_STRING], s_i := i + 2\<rparr>)
           else (False, st\<lparr>s_hl := h[i := HL_STRING], s_i := i + 1, prev_sep := True,
                          in_string := (if c = in_string st then NUL else in_string st)\<rparr>))
     else if strings_on syn \<and> (c = CHR 0x22 \<or> c = CHR 0x27)
     then (False, st\<lparr>s_hl := h[i := HL_STRING], s_i := i + 1, in_string := c\<rparr>)
     else if numbers_on syn \<and> number_at rnd st
     then (False, st\<lparr>s_hl := h[i := HL_NUMBER], s_i := i + 1, prev_sep := False\<rparr>)
     else (case keyword_here syn rnd st of
             Some (klen, cls) \<Rightarrow>
               (False, st\<lparr>s_hl := memset_hl h i cls klen, s_i := i + klen, prev_sep := False\<rparr>)
           | None \<Rightarrow> (False, st\<lparr>s_i := i + 1, prev_sep := is_separator c\<rparr>)))"

text \<open>An iteration that does not leave the loop moves forward, or stays in place having
  consumed the separator boundary (a keyword of length 0).\<close>

definition scan_progress :: "scan_state \<Rightarrow> bool \<times> scan_state \<Rightarrow> bool" where
  "scan_progress st r =
     (fst r \<or> s_i st < s_i (snd r)
      \<or> (s_i (snd r) = s_i st \<and> prev_sep st \<and> \<not> prev_sep (snd r)))"

lemma keyword_here_prev_sep: "keyword_here syn rnd st = Some p \<Longrightarrow> prev_sep st"
  by (simp add: keyword_here_def split: if_splits)

lemma scan_step_progress: "scan_progress st (scan_step syn rnd st)"
proof (cases "keyword_here syn rnd st")
  case None
  show ?thesis
    apply (simp only: scan_step_def Let_def None option.case if_distrib [of "scan_progress st"])
    apply (simp add: scan_progress_def ml_enabled_def)
    done
next
  case (Some p)
  obtain klen cls where p: "p = (klen, cls)" by (cases p)
  have ps: "prev_sep st" using Some by (rule keyword_here_prev_sep)
  show ?thesis
    apply (simp only: scan_step_def Let_def Some p option.case prod.case
        if_distrib [of "scan_progress st"])
    apply (auto simp add: scan_progress_def ml_enabled_def ps)
    done
qed

text \<open>The \<^verbatim>\<open>while (i < row->rsize)\<close> loop.\<close>

function scan_loop :: "editorSyntax \<Rightarrow> string \<Rightarrow> scan_state \<Rightarrow> scan_state" where
  "scan_loop syn rnd st =
     (if s_i st < length rnd
      then (let r = scan_step syn rnd st
            in if fst r then snd r else scan_loop syn rnd (snd r))
      else st)"
  by pat_completeness auto
termination
proof (relation "measures [\<lambda>(syn, rnd, st). length rnd - s_i st,
                           \<lambda>(syn, rnd, st). if prev_sep st then 1 else 0]", goal_cases)
  case 1
  show ?case by simp
next
  case (2 syn rnd st r)
  then show ?case
    using scan_step_progress [of st syn rnd] by (auto simp: scan_progress_def)
qed

declare scan_loop.simps [simp del]

text \<open>The same loop as equations that unfold one iteration at a time.\<close>

fun scan_after :: "editorSyntax \<Rightarrow> string \<Rightarrow> bool \<times> scan_state \<Rightarrow> scan_state" where
  "scan_after syn rnd (True, st') = st'"
| "scan_after syn rnd (False, st') = scan_loop syn rnd st'"

fun scan_when :: "editorSyntax \<Rightarrow> string \<Rightarrow> scan_state \<Rightarrow> bool \<Rightarrow> scan_state" where
  "scan_when syn rnd st False = st"
| "scan_when syn rnd st True = scan_after syn rnd (scan_step syn rnd st)"

lemma scan_loop_code [code]:
  "scan_loop syn rnd st = scan_when syn rnd st (s_i st < length rnd)"
  by (cases "scan_step syn rnd st"; cases "fst (scan_step syn rnd st)")
     (auto simp: Let_def scan_loop.simps)

text \<open>The scan of one row from its start: the highlight buffer cleared to
  \<^verbatim>\<open>HL_NORMAL\<close>, \<^verbatim>\<open>prev_sep = 1\<close>, \<^verbatim>\<open>in_string = 0\<close> and the comment
  flag carried in from the row before.\<close>

definition scan_row :: "editorSyntax \<Rightarrow> string \<Rightarrow> bool \<Rightarrow> scan_state" where
  "scan_row syn rnd carried =
     scan_loop syn rnd \<lparr>s_hl = replicate (length rnd) HL_NORMAL, s_i = 0, prev_sep = True,
       in_string = NUL, in_comment = carried\<rparr>"

text \<open>\<^verbatim>\<open>editorUpdateSyntax(&E.row[p])\<close>. The row before and the row after are found
  through the row's \<^verbatim>\<open>idx\<close> field, as in the source; the recursion on the next row
  has no bound of its own.\<close>

partial_function (option) editorUpdateSyntax :: "editorConfig \<Rightarrow> nat \<Rightarrow> editorConfig option" where
  "editorUpdateSyntax E p =
     (if length (row E) \<le> p then None
      else
        let r = row E ! p in
        case esyntax E of
          None \<Rightarrow>
            Some (E\<lparr>row := (row E)[p := r\<lparr>hl := replicate (length (render r)) HL_NORMAL\<rparr>]\<rparr>)
        | Some syn \<Rightarrow>
            if idx r > 0 \<and> int (length (row E)) \<le> idx r - 1 then None
            else
              let carried = (idx r > 0 \<and> hl_open_comment (row E ! nat (idx r - 1)));
                  st = scan_row syn (render r) carried;
                  changed = (hl_open_comment r \<noteq> in_comment st);
                  E' = E\<lparr>row := (row E)[p := r\<lparr>hl := s_hl st,
                                                     hl_open_comment := in_comment st\<rparr>]\<rparr>
              in if changed \<and> idx r + 1 < int (numrows E)
                 then (if idx r + 1 < 0 \<or> int (length (row E)) \<le> idx r + 1 then None
                       else editorUpdateSyntax E' (nat (idx r + 1)))
                 else Some E')"

section \<open>Row operations\<close>

text \<open>The inner loop of \<^verbatim>\<open>editorUpdateRow\<close> after a tab:
  \<^verbatim>\<open>while (idx % E.tab_stop != 0) row->render[idx++] = ' '\<close>, for a positive tab
  stop.\<close>

function tab_fill :: "nat \<Rightarrow> string \<Rightarrow> string" where
  "tab_fill ts rd =
     (if 0 < ts \<and> length rd mod ts \<noteq> 0 then tab_fill ts (rd @ [CHR '' '']) else rd)"
  by pat_completeness auto
termination
proof (relation "measure (\<lambda>(ts, rd). (ts - length rd mod ts) mod ts)", goal_cases)
  case 1
  show ?case by simp
next
  case (2 ts rd)
  then have pos: "0 < ts" and nz: "length rd mod ts \<noteq> 0" by simp_all
  have lt: "length rd mod ts < ts" using pos by simp
  show ?case
  proof (cases "Suc (length rd mod ts) = ts")
    case True
    then have "Suc (length rd) mod ts = 0" by (simp add: mod_Suc)
    moreover have "0 < (ts - length rd mod ts) mod ts" using lt nz pos by simp
    ultimately show ?thesis by simp
  next
    case False
    then have "Suc (length rd) mod ts = Suc (length rd mod ts)" by (simp add: mod_Suc)
    moreover have "Suc (length rd mod ts) < ts" using False lt by simp
    ultimately show ?thesis using lt nz pos by simp
  qed
qed

declare tab_fill.simps [simp del]

fun tab_fill_when :: "nat \<Rightarrow> string \<Rightarrow> bool \<Rightarrow> string" where
  "tab_fill_when ts rd False = rd"
| "tab_fill_when ts rd True = tab_fill ts (rd @ [CHR '' ''])"

lemma tab_fill_code [code]:
  "tab_fill ts rd = tab_fill_when ts rd (0 < ts \<and> length rd mod ts \<noteq> 0)"
  by (subst tab_fill.simps) simp

text \<open>The render loop of \<^verbatim>\<open>editorUpdateRow\<close>. At a tab with
  \<^verbatim>\<open>E.tab_stop = 0\<close> the program divides by zero, and with a negative tab stop
  the buffer it allocated, \<^verbatim>\<open>size + tabs*(tab_stop - 1) + 1\<close> bytes, is smaller than
  the \<^verbatim>\<open>size + 1\<close> bytes it writes at least: both are \<open>None\<close>.\<close>

fun render_loop :: "int \<Rightarrow> string \<Rightarrow> string \<Rightarrow> string option" where
  "render_loop ts [] rd = Some rd"
| "render_loop ts (c # cs) rd =
     (if c = TAB \<and> ts \<le> 0 then None
      else render_loop ts cs
             (if c = TAB then tab_fill (nat ts) (rd @ [CHR '' '']) else rd @ [c]))"

definition editorUpdateRow :: "editorConfig \<Rightarrow> nat \<Rightarrow> editorConfig option" where
  "editorUpdateRow E p =
     (if length (row E) \<le> p then None
      else
        let r = row E ! p in
        case render_loop (tab_stop E) (chars r) [] of
          None \<Rightarrow> None
        | Some rd \<Rightarrow> editorUpdateSyntax (E\<lparr>row := (row E)[p := r\<lparr>render := rd\<rparr>]\<rparr>) p)"

text \<open>\<^verbatim>\<open>editorInsertRow(at, s, len)\<close>: the rows from \<open>at\<close> on move up by one and
  have their \<^verbatim>\<open>idx\<close> incremented, the new row is initialised and highlighted, and
  only then \<^verbatim>\<open>E.numrows\<close> is incremented.\<close>

definition editorInsertRow :: "editorConfig \<Rightarrow> int \<Rightarrow> string \<Rightarrow> editorConfig option" where
  "editorInsertRow E at s =
     (if at < 0 \<or> at > int (numrows E) then Some E
      else if length (row E) < numrows E then None
      else
        let a = nat at;
            rs = take (numrows E) (row E);
            new = \<lparr>idx = at, chars = s, render = [], hl = [], hl_open_comment = False\<rparr>;
            rows' = take a rs @ [new] @ map (\<lambda>r. r\<lparr>idx := idx r + 1\<rparr>) (drop a rs)
        in case editorUpdateRow (E\<lparr>row := rows'\<rparr>) a of
             None \<Rightarrow> None
           | Some E' \<Rightarrow> Some (E'\<lparr>numrows := numrows E' + 1, dirty := dirty E' + 1\<rparr>))"

definition editorDelRow :: "editorConfig \<Rightarrow> int \<Rightarrow> editorConfig option" where
  "editorDelRow E at =
     (if at < 0 \<or> at \<ge> int (numrows E) then Some E
      else if length (row E) < numrows E then None
      else
        let a = nat at;
            rs = take (numrows E) (row E)
        in Some (E\<lparr>row := take a rs @ map (\<lambda>r. r\<lparr>idx := idx r - 1\<rparr>) (drop (a + 1) rs),
                   numrows := numrows E - 1, dirty := dirty E + 1\<rparr>))"

definition editorRowInsertChar :: "editorConfig \<Rightarrow> nat \<Rightarrow> int \<Rightarrow> char \<Rightarrow> editorConfig option" where
  "editorRowInsertChar E p at c =
     (if length (row E) \<le> p then None
      else
        let r = row E ! p;
            a = (if at < 0 \<or> at > int (length (chars r)) then length (chars r) else nat at);
            r' = r\<lparr>chars := take a (chars r) @ [c] @ drop a (chars r)\<rparr>
        in case editorUpdateRow (E\<lparr>row := (row E)[p := r']\<rparr>) p of
             None \<Rightarrow> None
           | Some E' \<Rightarrow> Some (E'\<lparr>dirty := dirty E' + 1\<rparr>))"

definition editorRowAppendString :: "editorConfig \<Rightarrow> nat \<Rightarrow> string \<Rightarrow> editorConfig option" where
  "editorRowAppendString E p s =
     (if length (row E) \<le> p then None
      else
        let r = row E ! p;
            r' = r\<lparr>chars := chars r @ s\<rparr>
        in case editorUpdateRow (E\<lparr>row := (row E)[p := r']\<rparr>) p of
             None \<Rightarrow> None
           | Some E' \<Rightarrow> Some (E'\<lparr>dirty := dirty E' + 1\<rparr>))"

definition editorRowDelChar :: "editorConfig \<Rightarrow> nat \<Rightarrow> int \<Rightarrow> editorConfig option" where
  "editorRowDelChar E p at =
     (if length (row E) \<le> p then None
      else
        let r = row E ! p in
        if at < 0 \<or> at \<ge> int (length (chars r)) then Some E
        else
          let a = nat at;
              r' = r\<lparr>chars := take a (chars r) @ drop (a + 1) (chars r)\<rparr>
          in case editorUpdateRow (E\<lparr>row := (row E)[p := r']\<rparr>) p of
               None \<Rightarrow> None
             | Some E' \<Rightarrow> Some (E'\<lparr>dirty := dirty E' + 1\<rparr>))"

section \<open>The highlight buffer keeps the length of the render\<close>

lemma strlen_Cons: "strlen (c # cs) = (if c = NUL then 0 else Suc (strlen cs))"
  by (simp add: strlen_def)

lemma strlen_Nil [simp]: "strlen [] = 0"
  by (simp add: strlen_def)

lemma strlen_le_length: "strlen s \<le> length s"
  by (simp add: strlen_def length_takeWhile_le)

lemma strncmp_eq_length: "strncmp_eq a b n \<Longrightarrow> n \<le> strlen b \<Longrightarrow> n \<le> length a"
proof (induction n arbitrary: a b)
  case 0
  then show ?case by simp
next
  case (Suc n)
  from Suc.prems(2) obtain y b' where b: "b = y # b'" and y: "y \<noteq> NUL" and n: "n \<le> strlen b'"
    by (cases b) (auto simp: strlen_Cons split: if_splits)
  from Suc.prems(1) b y obtain x a' where a: "a = x # a'" and rest: "strncmp_eq a' b' n"
    by (cases a) (auto split: if_splits)
  from Suc.IH [OF rest n] a show ?case by simp
qed

lemma keyword_at_length: "keyword_at kws r = Some (klen, cls) \<Longrightarrow> klen \<le> length r"
proof (induction kws)
  case Nil
  then show ?case by simp
next
  case (Cons kw kws)
  show ?case
  proof (cases "keyword_at kws r = Some (klen, cls)")
    case True
    then show ?thesis by (rule Cons.IH)
  next
    case False
    with Cons.prems have "strncmp_eq r kw klen \<and> klen \<le> strlen kw"
      by (auto simp: Let_def split: if_splits)
    then show ?thesis using strncmp_eq_length by blast
  qed
qed

lemma length_memset_hl: "i + n \<le> length h \<Longrightarrow> length (memset_hl h i v n) = length h"
  by (simp add: memset_hl_def)

definition hl_fits :: "string \<Rightarrow> bool \<times> scan_state \<Rightarrow> bool" where
  "hl_fits rnd r = (length (s_hl (snd r)) = length rnd)"

lemma scan_step_length:
  assumes i: "s_i st < length rnd" and h: "length (s_hl st) = length rnd"
  shows "hl_fits rnd (scan_step syn rnd st)"
proof -
  have mce: "mce_at syn rnd st \<Longrightarrow> s_i st + strlen (multiline_comment_end syn) \<le> length rnd"
    using strncmp_eq_length [of "drop (s_i st) rnd" "multiline_comment_end syn"
        "strlen (multiline_comment_end syn)"] i
    by (simp add: mce_at_def Let_def)
  have mcs: "mcs_at syn rnd st \<Longrightarrow> s_i st + strlen (multiline_comment_start syn) \<le> length rnd"
    using strncmp_eq_length [of "drop (s_i st) rnd" "multiline_comment_start syn"
        "strlen (multiline_comment_start syn)"] i
    by (simp add: mcs_at_def Let_def)
  have kw: "\<And>klen cls. keyword_here syn rnd st = Some (klen, cls) \<Longrightarrow> s_i st + klen \<le> length rnd"
    using keyword_at_length [of "syn_keywords syn" "drop (s_i st) rnd"] i
    by (fastforce simp add: keyword_here_def split: if_splits)
  show ?thesis
    apply (simp only: scan_step_def Let_def if_distrib [of "hl_fits rnd"]
        option.case_distrib [of "hl_fits rnd"] prod.case_distrib [of "hl_fits rnd"])
    using i h mce mcs kw
    apply (auto simp add: hl_fits_def length_memset_hl split: option.split)
    done
qed

lemma scan_loop_length:
  "length (s_hl st) = length rnd \<Longrightarrow> length (s_hl (scan_loop syn rnd st)) = length rnd"
proof (induction syn rnd st rule: scan_loop.induct)
  case (1 syn rnd st)
  show ?case
  proof (cases "s_i st < length rnd")
    case False
    then show ?thesis using "1.prems" by (simp add: scan_loop.simps)
  next
    case True
    have fit: "length (s_hl (snd (scan_step syn rnd st))) = length rnd"
      using scan_step_length [OF True "1.prems", of syn] by (simp add: hl_fits_def)
    show ?thesis
    proof (cases "fst (scan_step syn rnd st)")
      case True
      with \<open>s_i st < length rnd\<close> fit show ?thesis
        by (subst scan_loop.simps) (simp add: Let_def)
    next
      case False
      have "length (s_hl (scan_loop syn rnd (snd (scan_step syn rnd st)))) = length rnd"
        using "1.IH" [OF True refl False fit] .
      with True False show ?thesis
        by (subst scan_loop.simps) (simp add: Let_def)
    qed
  qed
qed

lemma scan_row_length: "length (s_hl (scan_row syn rnd carried)) = length rnd"
  unfolding scan_row_def by (rule scan_loop_length) simp

section \<open>The highlighter returns on an indexed document\<close>

definition idx_ok :: "editorConfig \<Rightarrow> bool" where
  "idx_ok E = (map idx (row E) = map int [0..<length (row E)])"

definition same_text :: "erow \<Rightarrow> erow \<Rightarrow> bool" where
  "same_text r r' = (idx r' = idx r \<and> chars r' = chars r \<and> render r' = render r)"

definition hl_sized :: "erow \<Rightarrow> bool" where
  "hl_sized r = (length (hl r) = length (render r))"

lemma idx_okD: "idx_ok E \<Longrightarrow> p < length (row E) \<Longrightarrow> idx (row E ! p) = int p"
proof -
  assume a: "idx_ok E" and p: "p < length (row E)"
  have "idx (row E ! p) = map idx (row E) ! p" using p by simp
  also have "\<dots> = map int [0..<length (row E)] ! p" using a by (simp add: idx_ok_def)
  also have "\<dots> = int p" using p by simp
  finally show ?thesis .
qed

lemma map_update_same: "p < length xs \<Longrightarrow> f x = f (xs ! p) \<Longrightarrow> map f (xs[p := x]) = map f xs"
  by (simp add: map_update list_update_same_conv)

lemma same_text_refl: "same_text r r"
  by (simp add: same_text_def)

lemma list_all2_same_text_refl: "list_all2 same_text rs rs"
  by (simp add: list_all2_refl same_text_refl)

lemma list_all2_same_text_update:
  "p < length rs \<Longrightarrow> same_text (rs ! p) r' \<Longrightarrow> list_all2 same_text rs (rs[p := r'])"
  by (simp add: list_all2_conv_all_nth nth_list_update same_text_refl)

lemma same_text_trans: "same_text a b \<Longrightarrow> same_text b c \<Longrightarrow> same_text a c"
  by (simp add: same_text_def)

lemma list_all2_same_text_trans:
  "list_all2 same_text xs ys \<Longrightarrow> list_all2 same_text ys zs \<Longrightarrow> list_all2 same_text xs zs"
  by (rule list_all2_trans [where ?P1.0 = same_text and ?P2.0 = same_text]) (auto intro: same_text_trans)

definition updated :: "nat \<Rightarrow> erow list \<Rightarrow> erow list \<Rightarrow> bool" where
  "updated p rs rs' =
     (list_all2 same_text rs rs' \<and> take p rs' = take p rs \<and> p < length rs' \<and> hl_sized (rs' ! p)
      \<and> (\<forall>j<length rs. hl_sized (rs ! j) \<longrightarrow> hl_sized (rs' ! j)))"

lemma editorUpdateSyntax_total:
  assumes "idx_ok E" and "p < length (row E)" and "numrows E \<le> length (row E)"
  shows "\<exists>rs. editorUpdateSyntax E p = Some (E\<lparr>row := rs\<rparr>) \<and> updated p (row E) rs"
  using assms
proof (induction "length (row E) - p" arbitrary: E p rule: less_induct)
  case less
  let ?r = "row E ! p"
  have idxp: "idx ?r = int p" using less.prems by (simp add: idx_okD)
  show ?case
  proof (cases "esyntax E")
    case None
    let ?rs = "(row E)[p := ?r\<lparr>hl := replicate (length (render ?r)) HL_NORMAL\<rparr>]"
    have "editorUpdateSyntax E p = Some (E\<lparr>row := ?rs\<rparr>)"
      using less.prems None by (subst editorUpdateSyntax.simps) (simp add: Let_def)
    moreover have "updated p (row E) ?rs"
      using less.prems
      by (auto simp add: updated_def hl_sized_def nth_list_update
          intro!: list_all2_same_text_update simp: same_text_def)
    ultimately show ?thesis by blast
  next
    case (Some syn)
    define carried where "carried = (idx ?r > 0 \<and> hl_open_comment (row E ! nat (idx ?r - 1)))"
    define st where "st = scan_row syn (render ?r) carried"
    define r' where "r' = ?r\<lparr>hl := s_hl st, hl_open_comment := in_comment st\<rparr>"
    define E' where "E' = E\<lparr>row := (row E)[p := r']\<rparr>"
    have sized: "hl_sized r'"
      by (simp add: r'_def hl_sized_def st_def scan_row_length)
    have st': "same_text ?r r'" by (simp add: r'_def same_text_def)
    have upd1: "updated p (row E) (row E')"
      using less.prems sized st'
      by (auto simp add: updated_def E'_def nth_list_update intro!: list_all2_same_text_update)
    define C where "C = (hl_open_comment ?r \<noteq> in_comment st \<and> int p + 1 < int (numrows E))"
    have unfold: "editorUpdateSyntax E p = (if C then editorUpdateSyntax E' (p + 1) else Some E')"
      using less.prems Some unfolding C_def E'_def r'_def st_def carried_def
      apply (subst editorUpdateSyntax.simps)
      apply (simp add: Let_def idxp nat_add_distrib)
      done
    show ?thesis
    proof (cases C)
      case False
      have "editorUpdateSyntax E p = Some E'"
        using False by (simp add: unfold)
      moreover have "E' = E\<lparr>row := row E'\<rparr>" by (simp add: E'_def)
      ultimately have "editorUpdateSyntax E p = Some (E\<lparr>row := row E'\<rparr>)" by simp
      with upd1 show ?thesis by blast
    next
      case True
      then have p1: "p + 1 < length (row E')" using less.prems by (simp add: E'_def C_def)
      have ok': "idx_ok E'"
        using less.prems st' by (simp add: idx_ok_def E'_def map_update_same same_text_def)
      have nr': "numrows E' \<le> length (row E')" using less.prems by (simp add: E'_def)
      have "length (row E') - (p + 1) < length (row E) - p"
        using less.prems by (simp add: E'_def)
      from less.hyps [OF this ok' p1 nr']
      obtain rs where rs: "editorUpdateSyntax E' (p + 1) = Some (E'\<lparr>row := rs\<rparr>)"
        and upd2: "updated (p + 1) (row E') rs" by blast
      have "editorUpdateSyntax E p = editorUpdateSyntax E' (p + 1)"
        using True by (simp add: unfold)
      moreover have "E'\<lparr>row := rs\<rparr> = E\<lparr>row := rs\<rparr>" by (simp add: E'_def)
      ultimately have "editorUpdateSyntax E p = Some (E\<lparr>row := rs\<rparr>)"
        using rs by simp
      moreover have "updated p (row E) rs"
      proof -
        have a: "list_all2 same_text (row E) rs"
          using upd1 upd2 by (auto simp: updated_def intro: list_all2_same_text_trans)
        have len: "length rs = length (row E)"
          using a by (simp add: list_all2_lengthD)
        have tk: "take (Suc p) rs = take (Suc p) (row E')" using upd2 by (simp add: updated_def)
        have rp: "rs ! p = row E' ! p"
          using tk by (metis lessI nth_take)
        have "take p rs = take p (row E')"
          using tk by (metis take_take min.absorb1 le_add2 plus_1_eq_Suc)
        then have b: "take p rs = take p (row E)" using upd1 by (simp add: updated_def)
        have c: "hl_sized (rs ! p)" using rp upd1 by (simp add: updated_def)
        have d: "\<forall>j<length (row E). hl_sized (row E ! j) \<longrightarrow> hl_sized (rs ! j)"
        proof (intro allI impI)
          fix j assume j: "j < length (row E)" and s: "hl_sized (row E ! j)"
          have l: "length (row E') = length (row E)" by (simp add: E'_def)
          from upd1 j s have "hl_sized (row E' ! j)" by (simp add: updated_def)
          with upd2 j l show "hl_sized (rs ! j)" by (simp add: updated_def)
        qed
        show ?thesis using a b c d less.prems len by (simp add: updated_def)
      qed
      ultimately show ?thesis by blast
    qed
  qed
qed

text \<open>The recursion of \<^verbatim>\<open>editorUpdateSyntax\<close> as equations that unfold one call at a
  time.\<close>

fun cascade_when :: "editorConfig \<Rightarrow> int \<Rightarrow> bool \<Rightarrow> editorConfig option" where
  "cascade_when E' n False = Some E'"
| "cascade_when E' n True =
     (if n < 0 \<or> int (length (row E')) \<le> n then None else editorUpdateSyntax E' (nat n))"

fun highlight_when :: "editorConfig \<Rightarrow> nat \<Rightarrow> editorSyntax option \<Rightarrow> bool \<Rightarrow> editorConfig option" where
  "highlight_when E p None b =
     Some (E\<lparr>row := (row E)[p := (row E ! p)\<lparr>hl := replicate (length (render (row E ! p))) HL_NORMAL\<rparr>]\<rparr>)"
| "highlight_when E p (Some syn) True = None"
| "highlight_when E p (Some syn) False =
     (let r = row E ! p;
          carried = (idx r > 0 \<and> hl_open_comment (row E ! nat (idx r - 1)));
          st = scan_row syn (render r) carried
      in cascade_when (E\<lparr>row := (row E)[p := r\<lparr>hl := s_hl st, hl_open_comment := in_comment st\<rparr>]\<rparr>)
           (idx r + 1)
           (hl_open_comment r \<noteq> in_comment st \<and> idx r + 1 < int (numrows E)))"

fun update_when :: "editorConfig \<Rightarrow> nat \<Rightarrow> bool \<Rightarrow> editorConfig option" where
  "update_when E p True = None"
| "update_when E p False =
     highlight_when E p (esyntax E)
       (idx (row E ! p) > 0 \<and> int (length (row E)) \<le> idx (row E ! p) - 1)"

lemma editorUpdateSyntax_code [code]:
  "editorUpdateSyntax E p = update_when E p (length (row E) \<le> p)"
proof (cases "length (row E) \<le> p")
  case True
  then show ?thesis by (subst editorUpdateSyntax.simps) simp
next
  case False
  then have inb: "(length (row E) \<le> p) = False" by simp
  show ?thesis
  proof (cases "esyntax E")
    case None
    with inb show ?thesis by (subst editorUpdateSyntax.simps) (simp add: Let_def)
  next
    case (Some syn)
    let ?r = "row E ! p"
    let ?st = "scan_row syn (render ?r)
         (idx ?r > 0 \<and> hl_open_comment (row E ! nat (idx ?r - 1)))"
    let ?B = "idx ?r > 0 \<and> int (length (row E)) \<le> idx ?r - 1"
    let ?C = "hl_open_comment ?r \<noteq> in_comment ?st \<and> idx ?r + 1 < int (numrows E)"
    show ?thesis
    proof (cases ?B)
      case True
      then have B: "?B = True" by simp
      show ?thesis
        apply (subst editorUpdateSyntax.simps)
        apply (simp only: inb Some B Let_def option.case if_False if_True
            update_when.simps highlight_when.simps)
        done
    next
      case False
      then have B: "?B = False" by simp
      show ?thesis
      proof (cases ?C)
        case True
        then have C: "?C = True" by simp
        show ?thesis
          apply (subst editorUpdateSyntax.simps)
          apply (simp only: inb Some B C Let_def option.case if_False if_True
              update_when.simps highlight_when.simps cascade_when.simps)
          apply simp
          done
      next
        case False
        then have C: "?C = False" by simp
        show ?thesis
          apply (subst editorUpdateSyntax.simps)
          apply (simp only: inb Some B C Let_def option.case if_False if_True
              update_when.simps highlight_when.simps cascade_when.simps)
          done
      qed
    qed
  qed
qed

section \<open>Editor operations\<close>

definition editorInsertChar :: "editorConfig \<Rightarrow> char \<Rightarrow> editorConfig option" where
  "editorInsertChar E c =
     Option.bind
       (if cy E = int (numrows E) then editorInsertRow E (int (numrows E)) [] else Some E)
       (\<lambda>E1.
          if cy E1 < 0 \<or> int (length (row E1)) \<le> cy E1 then None
          else Option.bind (editorRowInsertChar E1 (nat (cy E1)) (cx E1) c)
                 (\<lambda>E2. Some (E2\<lparr>cx := cx E2 + 1\<rparr>)))"

text \<open>\<^verbatim>\<open>editorInsertNewline\<close>. With the cursor inside a row, the text from the cursor
  on becomes a new row below, then the row is cut at the cursor and rendered again. A
  cursor outside the row array or outside the row is outside what the C code defines.\<close>

definition editorInsertNewline :: "editorConfig \<Rightarrow> editorConfig option" where
  "editorInsertNewline E =
     (if cx E = 0
      then Option.bind (editorInsertRow E (cy E) [])
             (\<lambda>E1. Some (E1\<lparr>cy := cy E1 + 1, cx := 0\<rparr>))
      else if cy E < 0 \<or> int (length (row E)) \<le> cy E then None
      else
        let y = nat (cy E); r = row E ! y in
        if cx E < 0 \<or> int (length (chars r)) < cx E then None
        else
          Option.bind (editorInsertRow E (cy E + 1) (drop (nat (cx E)) (chars r)))
            (\<lambda>E1.
               if length (row E1) \<le> y then None
               else
                 let r1 = row E1 ! y;
                     E2 = E1\<lparr>row := (row E1)[y := r1\<lparr>chars := take (nat (cx E1)) (chars r1)\<rparr>]\<rparr>
                 in Option.bind (editorUpdateRow E2 y)
                      (\<lambda>E3. Some (E3\<lparr>cy := cy E3 + 1, cx := 0\<rparr>))))"

text \<open>\<^verbatim>\<open>editorDelChar\<close>: inside a row it deletes the character before the cursor; at
  column 0 it appends the row to the row above and deletes it.\<close>

definition editorDelChar :: "editorConfig \<Rightarrow> editorConfig option" where
  "editorDelChar E =
     (if cy E = int (numrows E) \<or> (cx E = 0 \<and> cy E = 0) then Some E
      else if cy E < 0 \<or> int (length (row E)) \<le> cy E then None
      else
        let y = nat (cy E); r = row E ! y in
        if cx E > 0
        then Option.bind (editorRowDelChar E y (cx E - 1))
               (\<lambda>E1. Some (E1\<lparr>cx := cx E1 - 1\<rparr>))
        else if cy E - 1 < 0 then None
        else
          let E1 = E\<lparr>cx := int (length (chars (row E ! (y - 1))))\<rparr> in
          Option.bind (editorRowAppendString E1 (y - 1) (chars r))
            (\<lambda>E2. Option.bind (editorDelRow E2 (cy E2))
               (\<lambda>E3. Some (E3\<lparr>cy := cy E3 - 1\<rparr>))))"

section \<open>The syntax registry\<close>

definition C_HL_extensions :: "string list" where
  "C_HL_extensions = [''.c'', ''.h'', ''.cpp'', ''.hpp'', ''.cc'', ''.hh'', ''.cxx'', ''.hxx'']"

definition C_HL_keywords :: "string list" where
  "C_HL_keywords =
     [''auto'', ''break'', ''case'', ''const'', ''continue'', ''default'', ''do'',
      ''else'', ''enum'', ''extern'', ''for'', ''goto'', ''if'', ''register'', ''return'',
      ''sizeof'', ''static'', ''struct'', ''switch'', ''typedef'', ''union'', ''volatile'',
      ''while'', ''__asm__'', ''NULL'', ''alignas'', ''alignof'', ''and'', ''and_eq'',
      ''asm'', ''bitand'', ''bitor'', ''class'', ''compl'', ''constexpr'', ''const_cast'',
      ''deltype'', ''delete'', ''dynamic_cast'', ''explicit'', ''export'', ''false'',
      ''friend'', ''inline'', ''mutable'', ''using'', ''namespace'', ''new'', ''noexcept'',
      ''not'', ''not_eq'', ''nullptr'', ''operator'', ''or'', ''or_eq'', ''private'',
      ''protected'', ''public'', ''reinterpret_cast'', ''static_assert'', ''static_cast'',
      ''template'', ''this'', ''thread_local'', ''throw'', ''true'', ''try'', ''typeid'',
      ''typename'', ''virtual'', ''xor'', ''xor_eq'', ''#define'', ''#include'', ''#if'',
      ''ifdef'', ''#ifndef'', ''#endif'', ''#error'', ''#warning'', ''#pragma'', ''int|'',
      ''long|'', ''double|'', ''float|'', ''char|'', ''unsigned|'', ''signed|'', ''void|'',
      ''short|'', ''auto|'', ''bool|'']"

definition GO_HL_extensions :: "string list" where
  "GO_HL_extensions = [''.go'']"

definition GO_HL_keywords :: "string list" where
  "GO_HL_keywords =
     [''if'', ''else'', ''switch'', ''case'', ''func'', ''then'', ''for'', ''var'',
      ''type'', ''interface'', ''const'', ''range'', ''return'', ''struct'', ''default'',
      ''iota'', ''nil'', ''package'', ''import'', ''map'', ''break'', ''continue'',
      ''int|'', ''int8|'', ''int16|'', ''int32|'', ''int64|'', ''uint|'', ''uint8|'',
      ''uint16|'', ''uint32|'', ''uint64|'', ''float32|'', ''float64|'', ''byte|'',
      ''rune|'', ''bool|'', ''string|'', ''complex64|'', ''complex128|'', ''any|'',
      ''error|'', ''comparable|'']"

definition PY_HL_extensions :: "string list" where
  "PY_HL_extensions = [''.py'', ''pyi'', ''.xpy'', ''pyx'', ''.pyw'', ''.ipynb'']"

definition PY_HL_keywords :: "string list" where
  "PY_HL_keywords =
     [''and'', ''as'', ''assert'', ''break'', ''class'', ''continue'', ''def'', ''del'',
      ''elif'', ''else'', ''except'', ''exec'', ''finally'', ''for'', ''from'', ''global'',
      ''if'', ''import'', ''in'', ''is'', ''lambda'', ''not'', ''or'', ''pass'', ''print'',
      ''raise'', ''return'', ''try'', ''while'', ''with'', ''yield'', ''async'', ''await'',
      ''nonlocal'', ''range'', ''xrange'', ''reduce'', ''map'', ''filter'', ''all'',
      ''any'', ''sum'', ''dir'', ''abs'', ''breakpoint'', ''compile'', ''delattr'',
      ''divmod'', ''format'', ''eval'', ''getattr'', ''hasattr'', ''hash'', ''help'',
      ''id'', ''input'', ''isinstance'', ''issubclass'', ''len'', ''locals'', ''max'',
      ''min'', ''next'', ''open'', ''pow'', ''repr'', ''reversed'', ''round'', ''setattr'',
      ''slice'', ''sorted'', ''super'', ''vars'', ''zip'', ''__import__'', ''reload'',
      ''raw_input'', ''execfile'', ''file'', ''cmp'', ''basestring'', ''buffer|'',
      ''bytearray|'', ''bytes|'', ''complex|'', ''float|'', ''frozenset|'', ''int|'',
      ''list|'', ''long|'', ''None|'', ''set|'', ''str|'', ''chr|'', ''tuple|'', ''bool|'',
      ''False|'', ''True|'', ''type|'', ''unicode|'', ''dict|'', ''ascii|'', ''bin|'',
      ''callable|'', ''classmethod|'', ''enumerate|'', ''hex|'', ''oct|'', ''ord|'',
      ''iter|'', ''memoryview|'', ''object|'', ''property|'', ''staticmethod|'', ''unichr|'']"

definition RUST_HL_extensions :: "string list" where
  "RUST_HL_extensions = [''.rs'']"

definition RUST_HL_keywords :: "string list" where
  "RUST_HL_keywords =
     [''as'', ''async'', ''await'', ''const'', ''crate'', ''dyn'', ''enum'', ''extern'',
      ''fn'', ''impl'', ''let'', ''mod'', ''move'', ''mut'', ''pub'', ''ref'', ''Self'',
      ''static'', ''struct'', ''super'', ''trait'', ''type'', ''union'', ''unsafe'',
      ''use'', ''where'', ''break'', ''continue'', ''else'', ''for'', ''if'', ''in'',
      ''loop'', ''match'', ''return'', ''while'', ''i8|'', ''i16|'', ''i32|'', ''i64|'',
      ''i128|'', ''isize|'', ''u8|'', ''u16|'', ''u32|'', ''u64|'', ''u128|'', ''usize|'',
      ''f32|'', ''f64|'', ''bool|'', ''char|'', ''Box|'', ''Option|'', ''Some|'',
      ''None|'', ''Result|'', ''Ok|'', ''Err|'', ''String|'', ''Vec|'', ''let|'',
      ''const|'', ''mod|'', ''struct|'', ''enum|'', ''trait|'', ''union|'', ''self|'',
      ''true|'', ''false|'']"

definition HLDB :: "editorSyntax list" where
  "HLDB =
     [\<lparr>filetype = ''C/C++'', filematch = C_HL_extensions, syn_keywords = C_HL_keywords,
        singleline_comment_start = ''//'', multiline_comment_start = ''/*'',
        multiline_comment_end = ''*/'',
        flags = HL_HIGHLIGHT_NUMBERS OR HL_HIGHLIGHT_STRINGS\<rparr>,
      \<lparr>filetype = ''Golang'', filematch = GO_HL_extensions, syn_keywords = GO_HL_keywords,
        singleline_comment_start = ''//'', multiline_comment_start = ''/*'',
        multiline_comment_end = ''*/'',
        flags = HL_HIGHLIGHT_NUMBERS OR HL_HIGHLIGHT_STRINGS\<rparr>,
      \<lparr>filetype = ''Python'', filematch = PY_HL_extensions, syn_keywords = PY_HL_keywords,
        singleline_comment_start = ''#'',
        multiline_comment_start = [CHR 0x22, CHR 0x22, CHR 0x22],
        multiline_comment_end = [CHR 0x22, CHR 0x22, CHR 0x22],
        flags = HL_HIGHLIGHT_NUMBERS OR HL_HIGHLIGHT_STRINGS\<rparr>,
      \<lparr>filetype = ''Rust'', filematch = RUST_HL_extensions, syn_keywords = RUST_HL_keywords,
        singleline_comment_start = ''//'', multiline_comment_start = ''/*'',
        multiline_comment_end = ''*/'',
        flags = HL_HIGHLIGHT_NUMBERS OR HL_HIGHLIGHT_STRINGS\<rparr>]"

text \<open>\<^verbatim>\<open>strrchr(s, c)\<close>: the rest of the string from the last \<open>c\<close> on.\<close>

fun strrchr :: "string \<Rightarrow> char \<Rightarrow> string option" where
  "strrchr [] c = None"
| "strrchr (x # xs) c =
     (case strrchr xs c of
        Some t \<Rightarrow> Some t
      | None \<Rightarrow> if x = c then Some (x # xs) else None)"

text \<open>\<^verbatim>\<open>strstr(haystack, needle)\<close>: the offset of the first occurrence.\<close>

fun strstr :: "string \<Rightarrow> string \<Rightarrow> nat option" where
  "strstr [] needle = (if needle = [] then Some 0 else None)"
| "strstr (x # xs) needle =
     (if prefix needle (x # xs) then Some 0 else map_option Suc (strstr xs needle))"

text \<open>The \<^verbatim>\<open>while (s->filematch[i])\<close> loop of
  \<^verbatim>\<open>editorSelectSyntaxHighlight\<close>: whether some pattern of the entry matches.\<close>

fun filematch_loop :: "string list \<Rightarrow> string \<Rightarrow> string option \<Rightarrow> bool" where
  "filematch_loop [] fname ext = False"
| "filematch_loop (pat # pats) fname ext =
     (let is_ext = (peek pat = CHR ''.'')
      in if (is_ext \<and> ext \<noteq> None \<and> ext = Some pat)
            \<or> (\<not> is_ext \<and> strstr fname pat \<noteq> None)
         then True
         else filematch_loop pats fname ext)"

fun hldb_loop :: "editorSyntax list \<Rightarrow> string \<Rightarrow> string option \<Rightarrow> editorSyntax option" where
  "hldb_loop [] fname ext = None"
| "hldb_loop (s # ss) fname ext =
     (if filematch_loop (filematch s) fname ext then Some s else hldb_loop ss fname ext)"

text \<open>\<^verbatim>\<open>for (filerow = 0; filerow < E.numrows; filerow++) editorUpdateSyntax(...)\<close>,
  over the row numbers; the highlighter does not write \<^verbatim>\<open>E.numrows\<close>.\<close>

fun update_rows :: "nat list \<Rightarrow> editorConfig \<Rightarrow> editorConfig option" where
  "update_rows [] E = Some E"
| "update_rows (k # ks) E = Option.bind (editorUpdateSyntax E k) (update_rows ks)"

definition editorSelectSyntaxHighlight :: "editorConfig \<Rightarrow> editorConfig option" where
  "editorSelectSyntaxHighlight E =
     (let E1 = E\<lparr>esyntax := None\<rparr> in
      case filename E1 of
        None \<Rightarrow> Some E1
      | Some fname \<Rightarrow>
          (case hldb_loop HLDB fname (strrchr fname (CHR ''.'')) of
             None \<Rightarrow> Some E1
           | Some s \<Rightarrow> update_rows [0..<numrows E1] (E1\<lparr>esyntax := Some s\<rparr>)))"

section \<open>Buffer columns and render columns\<close>

text \<open>The loop of \<^verbatim>\<open>editorRowCxToRx\<close> over the row's buffer, which ends in a NUL;
  a read past the terminator and a remainder by zero are \<open>None\<close>. \<open>smod\<close> is C's
  \<^verbatim>\<open>%\<close>.\<close>

fun cx_to_rx_loop :: "int \<Rightarrow> string \<Rightarrow> nat \<Rightarrow> int \<Rightarrow> int option" where
  "cx_to_rx_loop ts buf 0 rx = Some rx"
| "cx_to_rx_loop ts [] (Suc n) rx = None"
| "cx_to_rx_loop ts (c # cs) (Suc n) rx =
     (if c = TAB \<and> ts = 0 then None
      else cx_to_rx_loop ts cs n
             ((if c = TAB then rx + ((ts - 1) - (rx smod ts)) else rx) + 1))"

definition editorRowCxToRx :: "editorConfig \<Rightarrow> erow \<Rightarrow> int \<Rightarrow> int option" where
  "editorRowCxToRx E r x = cx_to_rx_loop (tab_stop E) (chars r @ [NUL]) (nat x) 0"

fun rx_to_cx_loop :: "int \<Rightarrow> string \<Rightarrow> int \<Rightarrow> int \<Rightarrow> int \<Rightarrow> int option" where
  "rx_to_cx_loop ts [] x cur_rx rx = Some x"
| "rx_to_cx_loop ts (c # cs) x cur_rx rx =
     (if c = TAB \<and> ts = 0 then None
      else
        let cur = (if c = TAB then cur_rx + ((ts - 1) - (cur_rx smod ts)) else cur_rx) + 1
        in if cur > rx then Some x else rx_to_cx_loop ts cs (x + 1) cur rx)"

definition editorRowRxToCx :: "editorConfig \<Rightarrow> erow \<Rightarrow> int \<Rightarrow> int option" where
  "editorRowRxToCx E r rx = rx_to_cx_loop (tab_stop E) (chars r) 0 0 rx"

section \<open>File input and output\<close>

definition NL :: char where
  "NL = CHR 0x0A"

definition CR :: char where
  "CR = CHR 0x0D"

text \<open>\<^verbatim>\<open>editorRowsToString\<close>: the first loop adds up the length, the second copies
  each row and a newline. The length is a C \<^verbatim>\<open>int\<close>: from \<open>2^31\<close> on it
  overflows and \<^verbatim>\<open>malloc(totlen)\<close> is not a buffer for the rows, which is
  \<open>None\<close>.\<close>

definition editorRowsToString :: "editorConfig \<Rightarrow> (string \<times> int) option" where
  "editorRowsToString E =
     (if length (row E) < numrows E then None
      else
        let rs = take (numrows E) (row E);
            totlen = foldl (\<lambda>t r. t + (int (length (chars r)) + 1)) 0 rs;
            buf = foldl (\<lambda>b r. b @ chars r @ [NL]) [] rs
        in if 2 ^ 31 \<le> totlen then None else Some (buf, totlen))"

text \<open>\<^verbatim>\<open>getline\<close> on the unread rest of a file: the line with its newline (the
  last line may have none) and what is left, or \<open>None\<close> at the end of the file.\<close>

definition getline :: "string \<Rightarrow> (string \<times> string) option" where
  "getline s =
     (if s = [] then None
      else
        let l = takeWhile (\<lambda>c. c \<noteq> NL) s in
        case drop (length l) s of
          [] \<Rightarrow> Some (l, [])
        | c # rest \<Rightarrow> Some (l @ [c], rest))"

lemma getline_shorter: "getline s = Some (l, rest) \<Longrightarrow> length rest < length s"
proof -
  assume a: "getline s = Some (l, rest)"
  then have ne: "s \<noteq> []" by (auto simp: getline_def)
  let ?l = "takeWhile (\<lambda>c. c \<noteq> NL) s"
  show ?thesis
  proof (cases "drop (length ?l) s")
    case Nil
    with a ne show ?thesis by (simp add: getline_def Let_def)
  next
    case (Cons c r)
    with a ne have "rest = r" by (simp add: getline_def Let_def)
    moreover have "length (drop (length ?l) s) \<le> length s" by simp
    ultimately show ?thesis using Cons by simp
  qed
qed

text \<open>The lines that the \<^verbatim>\<open>while (getline(...) != -1)\<close> loop of
  \<^verbatim>\<open>editorOpen\<close> reads from a file.\<close>

function getlines :: "string \<Rightarrow> string list" where
  "getlines s = (case getline s of None \<Rightarrow> [] | Some (l, rest) \<Rightarrow> l # getlines rest)"
  by pat_completeness auto
termination
  by (relation "measure length") (auto dest: getline_shorter)

declare getlines.simps [simp del]

fun getlines_after :: "(string \<times> string) option \<Rightarrow> string list" where
  "getlines_after None = []"
| "getlines_after (Some (l, rest)) = l # getlines rest"

lemma getlines_code [code]: "getlines s = getlines_after (getline s)"
  by (subst getlines.simps) (simp split: option.split)

text \<open>\<^verbatim>\<open>while (linelen > 0 && (line[linelen - 1] == '\\n' || line[linelen - 1] == '\\r')) linelen--\<close>\<close>

definition strip_eol :: "string \<Rightarrow> string" where
  "strip_eol l = rev (dropWhile (\<lambda>c. c = NL \<or> c = CR) (rev l))"

fun open_loop :: "string list \<Rightarrow> editorConfig \<Rightarrow> editorConfig option" where
  "open_loop [] E = Some E"
| "open_loop (l # ls) E =
     Option.bind (editorInsertRow E (int (numrows E)) (strip_eol l)) (open_loop ls)"

text \<open>\<^verbatim>\<open>editorOpen\<close>; the file is its content, or \<open>None\<close> when it cannot be
  opened.\<close>

definition editorOpen :: "editorConfig \<Rightarrow> string \<Rightarrow> string option \<Rightarrow> editorConfig option" where
  "editorOpen E fname file =
     Option.bind (editorSelectSyntaxHighlight (E\<lparr>filename := Some fname\<rparr>))
       (\<lambda>E1. case file of
               None \<Rightarrow> Some E1
             | Some content \<Rightarrow>
                 Option.bind (open_loop (getlines content) E1)
                   (\<lambda>E2. Some (E2\<lparr>dirty := 0\<rparr>)))"

definition initEditor :: editorConfig where
  "initEditor = \<lparr>cx = 0, cy = 0, rowoff = 0, coloff = 0, numrows = 0, row = [], dirty = 0,
     filename = None, esyntax = None, tab_stop = 4\<rparr>"

section \<open>Well-formed documents\<close>

text \<open>Between two operations the row array holds exactly \<^verbatim>\<open>E.numrows\<close> rows, and
  each row's \<^verbatim>\<open>idx\<close> is its position.\<close>

definition doc_ok :: "editorConfig \<Rightarrow> bool" where
  "doc_ok E = (numrows E = length (row E) \<and> idx_ok E)"

lemma render_loop_total: "0 < ts \<Longrightarrow> \<exists>rd. render_loop ts cs acc = Some rd"
  by (induction cs arbitrary: acc) auto

lemma updated_length: "updated p rs rs' \<Longrightarrow> length rs' = length rs"
  by (auto simp add: updated_def dest: list_all2_lengthD)

lemma updated_same_text: "updated p rs rs' \<Longrightarrow> j < length rs \<Longrightarrow> same_text (rs ! j) (rs' ! j)"
  by (auto simp add: updated_def list_all2_conv_all_nth)

lemma updated_idx: "updated p rs rs' \<Longrightarrow> map idx rs' = map idx rs"
  by (rule nth_equalityI)
     (auto simp: updated_length dest: updated_same_text simp: same_text_def)

lemma updated_chars: "updated p rs rs' \<Longrightarrow> map chars rs' = map chars rs"
  by (rule nth_equalityI)
     (auto simp: updated_length dest: updated_same_text simp: same_text_def)

lemma updated_render: "updated p rs rs' \<Longrightarrow> map render rs' = map render rs"
  by (rule nth_equalityI)
     (auto simp: updated_length dest: updated_same_text simp: same_text_def)

text \<open>\<^verbatim>\<open>editorUpdateRow\<close> returns on an indexed document with a positive tab stop: the
  row gets its new render, and the highlighter runs from there.\<close>

lemma editorUpdateRow_total:
  assumes "idx_ok E" and "p < length (row E)" and "numrows E \<le> length (row E)"
    and "0 < tab_stop E"
  shows "\<exists>rd rs. render_loop (tab_stop E) (chars (row E ! p)) [] = Some rd
           \<and> editorUpdateRow E p = Some (E\<lparr>row := rs\<rparr>)
           \<and> updated p ((row E)[p := (row E ! p)\<lparr>render := rd\<rparr>]) rs"
proof -
  obtain rd where rd: "render_loop (tab_stop E) (chars (row E ! p)) [] = Some rd"
    using render_loop_total [OF assms(4)] by blast
  let ?E1 = "E\<lparr>row := (row E)[p := (row E ! p)\<lparr>render := rd\<rparr>]\<rparr>"
  have ok1: "idx_ok ?E1" using assms(1,2) by (simp add: idx_ok_def map_update_same)
  have p1: "p < length (row ?E1)" using assms(2) by simp
  have n1: "numrows ?E1 \<le> length (row ?E1)" using assms(3) by simp
  obtain rs where rs: "editorUpdateSyntax ?E1 p = Some (?E1\<lparr>row := rs\<rparr>)"
    and u: "updated p (row ?E1) rs"
    using editorUpdateSyntax_total [OF ok1 p1 n1] by blast
  have "editorUpdateRow E p = Some (E\<lparr>row := rs\<rparr>)"
    using assms(2) rd rs by (simp add: editorUpdateRow_def Let_def)
  with rd u show ?thesis by auto
qed

text \<open>C9. An out-of-range request is a no-op that returns the editor state as it was (the
  row sequence, every row and the dirty counter included): \<^verbatim>\<open>editorInsertRow\<close> with
  \<open>at < 0\<close> or \<open>at > numrows\<close>, \<^verbatim>\<open>editorDelRow\<close> with \<open>at < 0\<close> or
  \<open>at \<ge> numrows\<close>, and \<^verbatim>\<open>editorRowDelChar\<close> on a row of the document with
  \<open>at < 0\<close> or \<open>at \<ge> size\<close>.\<close>

theorem out_of_range_is_noop:
  "(at < 0 \<or> at > int (numrows E) \<longrightarrow> editorInsertRow E at s = Some E)
   \<and> (at < 0 \<or> at \<ge> int (numrows E) \<longrightarrow> editorDelRow E at = Some E)
   \<and> (p < length (row E) \<and> (at < 0 \<or> at \<ge> int (length (chars (row E ! p))))
        \<longrightarrow> editorRowDelChar E p at = Some E)"
  by (simp add: editorInsertRow_def editorDelRow_def editorRowDelChar_def Let_def)

text \<open>A document of two rows, as \<^verbatim>\<open>editorOpen\<close> leaves it for a file without a
  registered file type.\<close>

definition doc2 :: editorConfig where
  "doc2 = \<lparr>cx = 0, cy = 0, rowoff = 0, coloff = 0, numrows = 2,
     row = [\<lparr>idx = 0, chars = ''ab'', render = ''ab'', hl = [HL_NORMAL, HL_NORMAL],
              hl_open_comment = False\<rparr>,
            \<lparr>idx = 1, chars = ''c'', render = ''c'', hl = [HL_NORMAL],
              hl_open_comment = False\<rparr>],
     dirty = 0, filename = None, esyntax = None, tab_stop = 4\<rparr>"

theorem out_of_range_is_noop_witness:
  "editorInsertRow doc2 3 ''x'' = Some doc2 \<and> editorDelRow doc2 3 = Some doc2
   \<and> editorRowDelChar doc2 0 3 = Some doc2"
  using out_of_range_is_noop [of 3 doc2 "''x''" 0]
  by (simp add: doc2_def)

text \<open>\<^verbatim>\<open>E.dirty++\<close> below the largest \<^verbatim>\<open>int\<close> adds one; at the largest it
  wraps.\<close>

lemma sint_increment:
  "sint (w :: 32 word) < 2 ^ 31 - 1 \<Longrightarrow> sint (w + 1) = sint w + 1"
proof -
  assume a: "sint w < 2 ^ 31 - 1"
  have lo: "- (2 ^ 31) \<le> sint w" using sint_ge [of w] by simp
  have "sint (w + 1) = signed_take_bit (LENGTH(32) - 1) (sint w + sint (1 :: 32 word))"
    by (rule sint_word_ariths)
  also have "\<dots> = signed_take_bit 31 (sint w + 1)" by simp
  also have "\<dots> = sint w + 1"
    using a lo by (intro signed_take_bit_int_eq_self) simp_all
  finally show ?thesis .
qed

lemma dirty_wraps: "sint (2147483647 + 1 :: 32 word) = - 2147483648"
  by simp

text \<open>C10. \<^verbatim>\<open>editorRowInsertChar\<close> with a column outside the row, \<open>at < 0\<close> or
  \<open>at > size\<close>, on a row of a well-formed document: the operation returns, the character
  is appended to the row, whose length grows by one, and the dirty counter is
  incremented: \<^verbatim>\<open>E.dirty++\<close> on the 32-bit \<^verbatim>\<open>int\<close>, which is one more as a number
  unless the counter was at \<open>2^31 - 1\<close>.\<close>

theorem insert_char_out_of_range_appends:
  assumes "doc_ok E" and "0 < tab_stop E" and "p < length (row E)"
    and "at < 0 \<or> at > int (length (chars (row E ! p)))"
  shows "\<exists>E'. editorRowInsertChar E p at c = Some E'
           \<and> chars (row E' ! p) = chars (row E ! p) @ [c]
           \<and> length (chars (row E' ! p)) = length (chars (row E ! p)) + 1
           \<and> dirty E' = dirty E + 1
           \<and> (sint (dirty E) < 2 ^ 31 - 1 \<longrightarrow> sint (dirty E') = sint (dirty E) + 1)"
proof -
  let ?r = "row E ! p"
  let ?r' = "?r\<lparr>chars := chars ?r @ [c]\<rparr>"
  let ?E1 = "E\<lparr>row := (row E)[p := ?r']\<rparr>"
  have ok1: "idx_ok ?E1" using assms(1,3) by (simp add: doc_ok_def idx_ok_def map_update_same)
  have p1: "p < length (row ?E1)" using assms(3) by simp
  have n1: "numrows ?E1 \<le> length (row ?E1)" using assms(1) by (simp add: doc_ok_def)
  have t1: "0 < tab_stop ?E1" using assms(2) by simp
  obtain rd rs where upd: "editorUpdateRow ?E1 p = Some (?E1\<lparr>row := rs\<rparr>)"
    and u: "updated p ((row ?E1)[p := (row ?E1 ! p)\<lparr>render := rd\<rparr>]) rs"
    using editorUpdateRow_total [OF ok1 p1 n1 t1] by blast
  have "same_text (((row ?E1)[p := (row ?E1 ! p)\<lparr>render := rd\<rparr>]) ! p) (rs ! p)"
    using u p1 by (intro updated_same_text) simp_all
  then have ch: "chars (rs ! p) = chars ?r @ [c]"
    using assms(3) by (simp add: same_text_def)
  have res: "editorRowInsertChar E p at c = Some (?E1\<lparr>row := rs, dirty := dirty E + 1\<rparr>)"
    using assms(3,4) upd by (auto simp: editorRowInsertChar_def Let_def)
  show ?thesis using res ch sint_increment [of "dirty E"] by simp
qed

theorem insert_char_out_of_range_appends_witness:
  "\<exists>E'. editorRowInsertChar doc2 0 7 (CHR ''z'') = Some E'
     \<and> chars (row E' ! 0) = ''abz'' \<and> length (chars (row E' ! 0)) = 3 \<and> dirty E' = 1
     \<and> sint (dirty E') = 1"
proof -
  have a: "doc_ok doc2" by (simp add: doc_ok_def idx_ok_def doc2_def upt_rec)
  have b: "0 < tab_stop doc2" by (simp add: doc2_def)
  have c: "0 < length (row doc2)" by (simp add: doc2_def)
  have d: "(7::int) < 0 \<or> 7 > int (length (chars (row doc2 ! 0)))" by (simp add: doc2_def)
  show ?thesis
    using insert_char_out_of_range_appends [OF a b c d, of "CHR ''z''"]
    by (simp add: doc2_def numeral_3_eq_3)
qed

section \<open>What the row operations do to a well-formed document\<close>

definition hl_ok :: "editorConfig \<Rightarrow> bool" where
  "hl_ok E = list_all hl_sized (row E)"

text \<open>Replacing the text of row \<open>p\<close> and calling \<^verbatim>\<open>editorUpdateRow\<close> on it: the
  common part of the character operations.\<close>

lemma edit_row:
  assumes ok: "idx_ok E" and p: "p < length (row E)" and n: "numrows E \<le> length (row E)"
    and ts: "0 < tab_stop E" and i: "idx r' = idx (row E ! p)"
  shows "\<exists>rs. editorUpdateRow (E\<lparr>row := (row E)[p := r']\<rparr>) p = Some (E\<lparr>row := rs\<rparr>)
           \<and> length rs = length (row E)
           \<and> map idx rs = map idx (row E)
           \<and> map chars rs = (map chars (row E))[p := chars r']
           \<and> hl_sized (rs ! p)
           \<and> (\<forall>j<length rs. j \<noteq> p \<longrightarrow> hl_sized (row E ! j) \<longrightarrow> hl_sized (rs ! j))"
proof -
  let ?E1 = "E\<lparr>row := (row E)[p := r']\<rparr>"
  have ok1: "idx_ok ?E1" using ok p i by (simp add: idx_ok_def map_update_same)
  have p1: "p < length (row ?E1)" using p by simp
  have n1: "numrows ?E1 \<le> length (row ?E1)" using n by simp
  have t1: "0 < tab_stop ?E1" using ts by simp
  obtain rd rs where upd: "editorUpdateRow ?E1 p = Some (?E1\<lparr>row := rs\<rparr>)"
    and u: "updated p ((row ?E1)[p := (row ?E1 ! p)\<lparr>render := rd\<rparr>]) rs"
    using editorUpdateRow_total [OF ok1 p1 n1 t1] by blast
  let ?X = "(row E)[p := r'\<lparr>render := rd\<rparr>]"
  have X: "(row ?E1)[p := (row ?E1 ! p)\<lparr>render := rd\<rparr>] = ?X" using p by simp
  have u': "updated p ?X rs" using u X by simp
  have len: "length rs = length (row E)" using updated_length [OF u'] by simp
  have a: "map idx rs = map idx (row E)"
    using updated_idx [OF u'] p i by (simp add: map_update_same)
  have b: "map chars rs = (map chars (row E))[p := chars r']"
    using updated_chars [OF u'] by (simp add: map_update)
  have c: "hl_sized (rs ! p)" using u' by (simp add: updated_def)
  have d: "\<forall>j<length rs. j \<noteq> p \<longrightarrow> hl_sized (row E ! j) \<longrightarrow> hl_sized (rs ! j)"
  proof (intro allI impI)
    fix j assume j: "j < length rs" and np: "j \<noteq> p" and h: "hl_sized (row E ! j)"
    have "hl_sized (?X ! j)" using np h by simp
    moreover have "j < length ?X" using j len by simp
    ultimately show "hl_sized (rs ! j)" using u' by (simp add: updated_def)
  qed
  have "?E1\<lparr>row := rs\<rparr> = E\<lparr>row := rs\<rparr>" by simp
  with upd len a b c d show ?thesis by auto
qed

lemma hl_ok_from_rows:
  assumes "hl_ok E" and "length rs = length (row E)" and "hl_sized (rs ! p)"
    and "\<forall>j<length rs. j \<noteq> p \<longrightarrow> hl_sized (row E ! j) \<longrightarrow> hl_sized (rs ! j)"
  shows "list_all hl_sized rs"
  using assms by (auto simp add: hl_ok_def list_all_length)

lemma idx_after_insert:
  assumes "map idx rs = map int [0..<length rs]" and "a \<le> length rs" and "idx new = int a"
  shows "map idx (take a rs @ [new] @ map (\<lambda>r. r\<lparr>idx := idx r + 1\<rparr>) (drop a rs))
         = map int [0..<length rs + 1]"
proof (rule nth_equalityI)
  show "length (map idx (take a rs @ [new] @ map (\<lambda>r. r\<lparr>idx := idx r + 1\<rparr>) (drop a rs)))
        = length (map int [0..<length rs + 1])"
    using assms(2) by simp
next
  fix j
  assume "j < length (map idx (take a rs @ [new] @ map (\<lambda>r. r\<lparr>idx := idx r + 1\<rparr>) (drop a rs)))"
  then have j: "j < length rs + 1" using assms(2) by simp
  have at: "\<And>k. k < length rs \<Longrightarrow> idx (rs ! k) = int k"
  proof -
    fix k assume k: "k < length rs"
    have "idx (rs ! k) = map idx rs ! k" using k by simp
    also have "\<dots> = int k" using k assms(1) by simp
    finally show "idx (rs ! k) = int k" .
  qed
  consider "j < a" | "j = a" | "a < j" by linarith
  then show "map idx (take a rs @ [new] @ map (\<lambda>r. r\<lparr>idx := idx r + 1\<rparr>) (drop a rs)) ! j
             = map int [0..<length rs + 1] ! j"
  proof cases
    case 1
    then show ?thesis using assms(2) j at [of j] by (simp add: nth_append)
  next
    case 2
    then show ?thesis using assms(2,3) j by (simp add: nth_append)
  next
    case 3
    then have "a + (j - Suc a) < length rs" using j by simp
    then show ?thesis
      using 3 assms(2) j at [of "a + (j - Suc a)"] by (simp add: nth_append nth_Cons')
  qed
qed

lemma idx_after_delete:
  assumes "map idx rs = map int [0..<length rs]" and "a < length rs"
  shows "map idx (take a rs @ map (\<lambda>r. r\<lparr>idx := idx r - 1\<rparr>) (drop (a + 1) rs))
         = map int [0..<length rs - 1]"
proof (rule nth_equalityI)
  show "length (map idx (take a rs @ map (\<lambda>r. r\<lparr>idx := idx r - 1\<rparr>) (drop (a + 1) rs)))
        = length (map int [0..<length rs - 1])"
    using assms(2) by simp
next
  fix j
  assume "j < length (map idx (take a rs @ map (\<lambda>r. r\<lparr>idx := idx r - 1\<rparr>) (drop (a + 1) rs)))"
  then have j: "j < length rs - 1" using assms(2) by simp
  have at: "\<And>k. k < length rs \<Longrightarrow> idx (rs ! k) = int k"
  proof -
    fix k assume k: "k < length rs"
    have "idx (rs ! k) = map idx rs ! k" using k by simp
    also have "\<dots> = int k" using k assms(1) by simp
    finally show "idx (rs ! k) = int k" .
  qed
  show "map idx (take a rs @ map (\<lambda>r. r\<lparr>idx := idx r - 1\<rparr>) (drop (a + 1) rs)) ! j
        = map int [0..<length rs - 1] ! j"
  proof (cases "j < a")
    case True
    then show ?thesis using assms(2) j at [of j] by (simp add: nth_append)
  next
    case False
    then have "Suc (a + (j - a)) < length rs" using j by simp
    then show ?thesis
      using False assms(2) j at [of "Suc (a + (j - a))"] by (simp add: nth_append)
  qed
qed

lemma editorInsertRow_ok:
  assumes d: "doc_ok E" and ts: "0 < tab_stop E" and lo: "0 \<le> at" and hi: "at \<le> int (numrows E)"
  shows "\<exists>rs. editorInsertRow E at s
                = Some (E\<lparr>row := rs, numrows := numrows E + 1, dirty := dirty E + 1\<rparr>)
           \<and> length rs = numrows E + 1
           \<and> map idx rs = map int [0..<numrows E + 1]
           \<and> map chars rs = take (nat at) (map chars (row E)) @ [s] @ drop (nat at) (map chars (row E))
           \<and> (hl_ok E \<longrightarrow> list_all hl_sized rs)"
proof -
  let ?a = "nat at"
  let ?new = "\<lparr>idx = at, chars = s, render = [], hl = [], hl_open_comment = False\<rparr>"
  let ?rows = "take ?a (row E) @ [?new] @ map (\<lambda>r. r\<lparr>idx := idx r + 1\<rparr>) (drop ?a (row E))"
  let ?E0 = "E\<lparr>row := ?rows\<rparr>"
  have nl: "numrows E = length (row E)" and io: "map idx (row E) = map int [0..<length (row E)]"
    using d by (simp_all add: doc_ok_def idx_ok_def)
  have a: "?a \<le> length (row E)" using hi nl by simp
  have len0: "length ?rows = length (row E) + 1" using a by simp
  have idx0: "map idx ?rows = map int [0..<length (row E) + 1]"
    using idx_after_insert [OF io a, of ?new] lo by simp
  have ok0: "idx_ok ?E0" using idx0 len0 by (simp add: idx_ok_def)
  have p0: "?a < length (row ?E0)" using a by simp
  have n0: "numrows ?E0 \<le> length (row ?E0)" using nl a by simp
  have t0: "0 < tab_stop ?E0" using ts by simp
  have same: "(row ?E0)[?a := ?new] = row ?E0"
    using a by (simp add: list_update_append)
  obtain rs where upd: "editorUpdateRow (?E0\<lparr>row := (row ?E0)[?a := ?new]\<rparr>) ?a = Some (?E0\<lparr>row := rs\<rparr>)"
    and len: "length rs = length (row ?E0)"
    and ix: "map idx rs = map idx (row ?E0)"
    and ch: "map chars rs = (map chars (row ?E0))[?a := chars ?new]"
    and hp: "hl_sized (rs ! ?a)"
    and ho: "\<forall>j<length rs. j \<noteq> ?a \<longrightarrow> hl_sized (row ?E0 ! j) \<longrightarrow> hl_sized (rs ! j)"
    using edit_row [OF ok0 p0 n0 t0, of ?new] a lo by (auto simp add: nth_append)
  have upd': "editorUpdateRow ?E0 ?a = Some (?E0\<lparr>row := rs\<rparr>)"
    using upd same by simp
  have res: "editorInsertRow E at s
      = Some (E\<lparr>row := rs, numrows := numrows E + 1, dirty := dirty E + 1\<rparr>)"
    using lo hi nl upd' by (simp add: editorInsertRow_def Let_def)
  have c1: "length rs = numrows E + 1" using len len0 nl by simp
  have c2: "map idx rs = map int [0..<numrows E + 1]" using ix idx0 nl by simp
  have c3: "map chars rs = take ?a (map chars (row E)) @ [s] @ drop ?a (map chars (row E))"
    using ch a by (simp add: take_map drop_map list_update_append comp_def)
  have c4: "hl_ok E \<longrightarrow> list_all hl_sized rs"
  proof
    assume h: "hl_ok E"
    have all: "\<And>k. k < length (row E) \<Longrightarrow> hl_sized (row E ! k)"
      using h by (simp add: hl_ok_def list_all_length)
    show "list_all hl_sized rs"
      unfolding list_all_length
    proof (intro allI impI)
      fix j assume j: "j < length rs"
      show "hl_sized (rs ! j)"
      proof (cases "j = ?a")
        case True
        then show ?thesis using hp by simp
      next
        case False
        have "hl_sized (row ?E0 ! j)"
        proof (cases "j < ?a")
          case True
          then show ?thesis using a all [of j] by (simp add: nth_append)
        next
          case False
          with \<open>j \<noteq> ?a\<close> have gt: "?a < j" by simp
          then have k: "?a + (j - Suc ?a) < length (row E)" using j len len0 by simp
          have k': "j - Suc ?a < length (drop ?a (row E))" using j len len0 gt by simp
          have "row ?E0 ! j = (row E ! (?a + (j - Suc ?a)))\<lparr>idx := idx (row E ! (?a + (j - Suc ?a))) + 1\<rparr>"
            using gt a k' by (simp add: nth_append nth_Cons')
          then show ?thesis using all [OF k] by (simp add: hl_sized_def)
        qed
        with ho j False show ?thesis by simp
      qed
    qed
  qed
  show ?thesis using res c1 c2 c3 c4 by blast
qed

lemma editorDelRow_ok:
  assumes d: "doc_ok E" and lo: "0 \<le> at" and hi: "at < int (numrows E)"
  shows "\<exists>rs. editorDelRow E at
                = Some (E\<lparr>row := rs, numrows := numrows E - 1, dirty := dirty E + 1\<rparr>)
           \<and> rs = take (nat at) (row E) @ map (\<lambda>r. r\<lparr>idx := idx r - 1\<rparr>) (drop (nat at + 1) (row E))
           \<and> length rs = numrows E - 1
           \<and> map idx rs = map int [0..<numrows E - 1]
           \<and> map chars rs = take (nat at) (map chars (row E)) @ drop (nat at + 1) (map chars (row E))
           \<and> (hl_ok E \<longrightarrow> list_all hl_sized rs)"
proof -
  let ?a = "nat at"
  let ?rs = "take ?a (row E) @ map (\<lambda>r. r\<lparr>idx := idx r - 1\<rparr>) (drop (?a + 1) (row E))"
  have nl: "numrows E = length (row E)" and io: "map idx (row E) = map int [0..<length (row E)]"
    using d by (simp_all add: doc_ok_def idx_ok_def)
  have a: "?a < length (row E)" using lo hi nl by simp
  have res: "editorDelRow E at = Some (E\<lparr>row := ?rs, numrows := numrows E - 1, dirty := dirty E + 1\<rparr>)"
    using lo hi nl by (simp add: editorDelRow_def Let_def)
  have c1: "length ?rs = numrows E - 1" using a nl by simp
  have c2: "map idx ?rs = map int [0..<numrows E - 1]"
    using idx_after_delete [OF io a] nl by simp
  have c3: "map chars ?rs = take ?a (map chars (row E)) @ drop (?a + 1) (map chars (row E))"
    by (simp add: take_map drop_map comp_def)
  have c4: "hl_ok E \<longrightarrow> list_all hl_sized ?rs"
  proof
    assume "hl_ok E"
    then have all: "\<forall>r \<in> set (row E). hl_sized r" by (simp add: hl_ok_def list_all_iff)
    have "\<forall>r \<in> set (take ?a (row E)). hl_sized r" using all by (meson in_set_takeD)
    moreover have "\<forall>r \<in> set (drop (?a + 1) (row E)). hl_sized r" using all by (meson in_set_dropD)
    ultimately show "list_all hl_sized ?rs" by (auto simp add: list_all_iff hl_sized_def)
  qed
  show ?thesis using res c1 c2 c3 c4 by blast
qed

section \<open>Rows keep their index\<close>








section \<open>One highlight entry per render character\<close>

text \<open>The invariant of the editor between two operations: a well-formed document, a
  positive tab stop, and in every row a highlight buffer as long as the render
  (\<^verbatim>\<open>rsize\<close> is the length of \<open>render\<close>).\<close>

definition editor_inv :: "editorConfig \<Rightarrow> bool" where
  "editor_inv E = (doc_ok E \<and> 0 < tab_stop E \<and> hl_ok E)"

definition same_cursor :: "editorConfig \<Rightarrow> editorConfig \<Rightarrow> bool" where
  "same_cursor E E' = (cx E' = cx E \<and> cy E' = cy E)"

lemma editor_inv_rows:
  assumes "editor_inv E" and "length rs = length (row E)" and "map idx rs = map idx (row E)"
    and "list_all hl_sized rs"
  shows "editor_inv (E\<lparr>row := rs, dirty := d\<rparr>)" and "editor_inv (E\<lparr>row := rs\<rparr>)"
  using assms by (simp_all add: editor_inv_def doc_ok_def idx_ok_def hl_ok_def)

lemma edit_row_inv:
  assumes inv: "editor_inv E" and p: "p < length (row E)" and i: "idx r' = idx (row E ! p)"
  shows "\<exists>rs. editorUpdateRow (E\<lparr>row := (row E)[p := r']\<rparr>) p = Some (E\<lparr>row := rs\<rparr>)
           \<and> length rs = length (row E) \<and> map idx rs = map idx (row E)
           \<and> map chars rs = (map chars (row E))[p := chars r']
           \<and> list_all hl_sized rs"
proof -
  have ok: "idx_ok E" and n: "numrows E \<le> length (row E)" and ts: "0 < tab_stop E"
    and h: "hl_ok E"
    using inv by (simp_all add: editor_inv_def doc_ok_def)
  obtain rs where upd: "editorUpdateRow (E\<lparr>row := (row E)[p := r']\<rparr>) p = Some (E\<lparr>row := rs\<rparr>)"
    and len: "length rs = length (row E)" and ix: "map idx rs = map idx (row E)"
    and ch: "map chars rs = (map chars (row E))[p := chars r']"
    and hp: "hl_sized (rs ! p)"
    and ho: "\<forall>j<length rs. j \<noteq> p \<longrightarrow> hl_sized (row E ! j) \<longrightarrow> hl_sized (rs ! j)"
    using edit_row [OF ok p n ts i] by blast
  have "list_all hl_sized rs" using hl_ok_from_rows [OF h len hp ho] .
  with upd len ix ch show ?thesis by blast
qed

lemma editorRowInsertChar_inv:
  assumes inv: "editor_inv E" and p: "p < length (row E)"
  shows "\<exists>E'. editorRowInsertChar E p at c = Some E' \<and> editor_inv E' \<and> same_cursor E E'
           \<and> numrows E' = numrows E"
proof -
  let ?r = "row E ! p"
  let ?a = "if at < 0 \<or> at > int (length (chars ?r)) then length (chars ?r) else nat at"
  let ?r' = "?r\<lparr>chars := take ?a (chars ?r) @ [c] @ drop ?a (chars ?r)\<rparr>"
  obtain rs where upd: "editorUpdateRow (E\<lparr>row := (row E)[p := ?r']\<rparr>) p = Some (E\<lparr>row := rs\<rparr>)"
    and len: "length rs = length (row E)" and ix: "map idx rs = map idx (row E)"
    and hs: "list_all hl_sized rs"
    using edit_row_inv [OF inv p, of ?r'] by auto
  have "editorRowInsertChar E p at c = Some (E\<lparr>row := rs, dirty := dirty E + 1\<rparr>)"
    using p upd by (simp add: editorRowInsertChar_def Let_def)
  moreover have "editor_inv (E\<lparr>row := rs, dirty := dirty E + 1\<rparr>)"
    using editor_inv_rows(1) [OF inv len ix hs] .
  ultimately show ?thesis by (simp add: same_cursor_def)
qed

lemma editorRowAppendString_inv:
  assumes inv: "editor_inv E" and p: "p < length (row E)"
  shows "\<exists>E'. editorRowAppendString E p s = Some E' \<and> editor_inv E' \<and> same_cursor E E'
           \<and> numrows E' = numrows E"
proof -
  let ?r = "row E ! p"
  let ?r' = "?r\<lparr>chars := chars ?r @ s\<rparr>"
  obtain rs where upd: "editorUpdateRow (E\<lparr>row := (row E)[p := ?r']\<rparr>) p = Some (E\<lparr>row := rs\<rparr>)"
    and len: "length rs = length (row E)" and ix: "map idx rs = map idx (row E)"
    and hs: "list_all hl_sized rs"
    using edit_row_inv [OF inv p, of ?r'] by auto
  have "editorRowAppendString E p s = Some (E\<lparr>row := rs, dirty := dirty E + 1\<rparr>)"
    using p upd by (simp add: editorRowAppendString_def Let_def)
  moreover have "editor_inv (E\<lparr>row := rs, dirty := dirty E + 1\<rparr>)"
    using editor_inv_rows(1) [OF inv len ix hs] .
  ultimately show ?thesis by (simp add: same_cursor_def)
qed

lemma editorRowDelChar_inv:
  assumes inv: "editor_inv E" and p: "p < length (row E)"
  shows "\<exists>E'. editorRowDelChar E p at = Some E' \<and> editor_inv E' \<and> same_cursor E E'
           \<and> numrows E' = numrows E"
proof (cases "at < 0 \<or> at \<ge> int (length (chars (row E ! p)))")
  case True
  then have "editorRowDelChar E p at = Some E" using p by (simp add: editorRowDelChar_def)
  then show ?thesis using inv by (simp add: same_cursor_def)
next
  case False
  let ?r = "row E ! p"
  let ?r' = "?r\<lparr>chars := take (nat at) (chars ?r) @ drop (nat at + 1) (chars ?r)\<rparr>"
  obtain rs where upd: "editorUpdateRow (E\<lparr>row := (row E)[p := ?r']\<rparr>) p = Some (E\<lparr>row := rs\<rparr>)"
    and len: "length rs = length (row E)" and ix: "map idx rs = map idx (row E)"
    and hs: "list_all hl_sized rs"
    using edit_row_inv [OF inv p, of ?r'] by auto
  have "editorRowDelChar E p at = Some (E\<lparr>row := rs, dirty := dirty E + 1\<rparr>)"
    using p upd False by (simp add: editorRowDelChar_def Let_def)
  moreover have "editor_inv (E\<lparr>row := rs, dirty := dirty E + 1\<rparr>)"
    using editor_inv_rows(1) [OF inv len ix hs] .
  ultimately show ?thesis by (simp add: same_cursor_def)
qed

lemma editorUpdateRow_inv:
  assumes inv: "editor_inv E" and p: "p < length (row E)"
  shows "\<exists>E'. editorUpdateRow E p = Some E' \<and> editor_inv E' \<and> same_cursor E E'
           \<and> numrows E' = numrows E"
proof -
  obtain rs where upd: "editorUpdateRow (E\<lparr>row := (row E)[p := row E ! p]\<rparr>) p = Some (E\<lparr>row := rs\<rparr>)"
    and len: "length rs = length (row E)" and ix: "map idx rs = map idx (row E)"
    and hs: "list_all hl_sized rs"
    using edit_row_inv [OF inv p, of "row E ! p"] by auto
  have "editorUpdateRow E p = Some (E\<lparr>row := rs\<rparr>)" using upd by simp
  moreover have "editor_inv (E\<lparr>row := rs\<rparr>)"
    using editor_inv_rows(2) [OF inv len ix hs] .
  ultimately show ?thesis by (simp add: same_cursor_def)
qed

lemma editorUpdateSyntax_inv:
  assumes inv: "editor_inv E" and p: "p < length (row E)"
  shows "\<exists>E'. editorUpdateSyntax E p = Some E' \<and> editor_inv E' \<and> same_cursor E E'
           \<and> numrows E' = numrows E \<and> esyntax E' = esyntax E"
proof -
  have ok: "idx_ok E" and n: "numrows E \<le> length (row E)" and h: "hl_ok E"
    using inv by (simp_all add: editor_inv_def doc_ok_def)
  obtain rs where upd: "editorUpdateSyntax E p = Some (E\<lparr>row := rs\<rparr>)"
    and u: "updated p (row E) rs"
    using editorUpdateSyntax_total [OF ok p n] by blast
  have len: "length rs = length (row E)" using updated_length [OF u] .
  have ix: "map idx rs = map idx (row E)" using updated_idx [OF u] .
  have hs: "list_all hl_sized rs"
    using u h len by (simp add: updated_def hl_ok_def list_all_length)
  have "editor_inv (E\<lparr>row := rs\<rparr>)" using editor_inv_rows(2) [OF inv len ix hs] .
  with upd show ?thesis by (simp add: same_cursor_def)
qed

lemma update_rows_inv:
  "editor_inv E \<Longrightarrow> \<forall>k \<in> set ks. k < numrows E \<Longrightarrow>
   \<exists>E'. update_rows ks E = Some E' \<and> editor_inv E' \<and> same_cursor E E' \<and> numrows E' = numrows E"
proof (induction ks arbitrary: E)
  case Nil
  then show ?case by (simp add: same_cursor_def)
next
  case (Cons k ks)
  have "k < length (row E)" using Cons.prems by (simp add: editor_inv_def doc_ok_def)
  then obtain E1 where s1: "editorUpdateSyntax E k = Some E1" and i1: "editor_inv E1"
    and c1: "same_cursor E E1" and n1: "numrows E1 = numrows E"
    using editorUpdateSyntax_inv [OF Cons.prems(1)] by blast
  have "\<forall>k \<in> set ks. k < numrows E1" using Cons.prems(2) n1 by simp
  from Cons.IH [OF i1 this] obtain E' where "update_rows ks E1 = Some E'" and "editor_inv E'"
    and "same_cursor E1 E'" and "numrows E' = numrows E1" by blast
  then show ?case using s1 c1 n1 by (simp add: same_cursor_def)
qed

lemma editorSelectSyntaxHighlight_inv:
  assumes inv: "editor_inv E"
  shows "\<exists>E'. editorSelectSyntaxHighlight E = Some E' \<and> editor_inv E' \<and> same_cursor E E'
           \<and> numrows E' = numrows E"
proof -
  let ?E1 = "E\<lparr>esyntax := None\<rparr>"
  have i1: "editor_inv ?E1"
    using inv by (simp add: editor_inv_def doc_ok_def idx_ok_def hl_ok_def)
  show ?thesis
  proof (cases "filename E")
    case None
    then show ?thesis using i1 by (simp add: editorSelectSyntaxHighlight_def same_cursor_def)
  next
    case (Some fname)
    show ?thesis
    proof (cases "hldb_loop HLDB fname (strrchr fname (CHR ''.''))")
      case None
      then show ?thesis
        using Some i1 by (simp add: editorSelectSyntaxHighlight_def same_cursor_def)
    next
      case (Some s)
      let ?E2 = "?E1\<lparr>esyntax := Some s\<rparr>"
      have i2: "editor_inv ?E2"
        using inv by (simp add: editor_inv_def doc_ok_def idx_ok_def hl_ok_def)
      have "\<forall>k \<in> set [0..<numrows E]. k < numrows ?E2" by simp
      from update_rows_inv [OF i2 this]
      obtain E' where "update_rows [0..<numrows E] ?E2 = Some E'" and "editor_inv E'"
        and "same_cursor ?E2 E'" and "numrows E' = numrows ?E2" by blast
      then show ?thesis
        using Some \<open>filename E = Some fname\<close>
        by (simp add: editorSelectSyntaxHighlight_def same_cursor_def)
    qed
  qed
qed

lemma editorInsertRow_inv:
  assumes inv: "editor_inv E"
  shows "\<exists>E'. editorInsertRow E at s = Some E' \<and> editor_inv E' \<and> same_cursor E E'
           \<and> numrows E' = (if 0 \<le> at \<and> at \<le> int (numrows E) then numrows E + 1 else numrows E)"
proof (cases "0 \<le> at \<and> at \<le> int (numrows E)")
  case True
  have d: "doc_ok E" and ts: "0 < tab_stop E" and h: "hl_ok E"
    using inv by (simp_all add: editor_inv_def)
  obtain rs where "editorInsertRow E at s
        = Some (E\<lparr>row := rs, numrows := numrows E + 1, dirty := dirty E + 1\<rparr>)"
    and "length rs = numrows E + 1" and "map idx rs = map int [0..<numrows E + 1]"
    and "hl_ok E \<longrightarrow> list_all hl_sized rs"
    using editorInsertRow_ok [OF d ts, of at s] True by blast
  then show ?thesis
    using True ts h by (simp add: editor_inv_def doc_ok_def idx_ok_def hl_ok_def same_cursor_def)
next
  case False
  then have "editorInsertRow E at s = Some E" by (auto simp: editorInsertRow_def)
  then show ?thesis using False inv by (simp add: same_cursor_def)
qed

lemma editorDelRow_inv:
  assumes inv: "editor_inv E"
  shows "\<exists>E'. editorDelRow E at = Some E' \<and> editor_inv E' \<and> same_cursor E E'"
proof (cases "0 \<le> at \<and> at < int (numrows E)")
  case True
  have d: "doc_ok E" and ts: "0 < tab_stop E" and h: "hl_ok E"
    using inv by (simp_all add: editor_inv_def)
  obtain rs where "editorDelRow E at
        = Some (E\<lparr>row := rs, numrows := numrows E - 1, dirty := dirty E + 1\<rparr>)"
    and "length rs = numrows E - 1" and "map idx rs = map int [0..<numrows E - 1]"
    and "hl_ok E \<longrightarrow> list_all hl_sized rs"
    using editorDelRow_ok [OF d, of at] True by blast
  then show ?thesis
    using ts h by (simp add: editor_inv_def doc_ok_def idx_ok_def hl_ok_def same_cursor_def)
next
  case False
  then have "editorDelRow E at = Some E" by (auto simp: editorDelRow_def)
  then show ?thesis using inv by (simp add: same_cursor_def)
qed

lemma editorInsertChar_inv:
  assumes inv: "editor_inv E" and lo: "0 \<le> cy E" and hi: "cy E \<le> int (numrows E)"
  shows "\<exists>E'. editorInsertChar E c = Some E' \<and> editor_inv E'"
proof -
  let ?first = "if cy E = int (numrows E) then editorInsertRow E (int (numrows E)) [] else Some E"
  have "\<exists>E1. ?first = Some E1 \<and> editor_inv E1 \<and> cy E1 = cy E \<and> cy E1 < int (numrows E1)"
  proof (cases "cy E = int (numrows E)")
    case True
    obtain E1 where "editorInsertRow E (int (numrows E)) [] = Some E1" and "editor_inv E1"
      and "same_cursor E E1" and "numrows E1 = numrows E + 1"
      using editorInsertRow_inv [OF inv, of "int (numrows E)" "[]"] by auto
    then show ?thesis using True by (simp add: same_cursor_def)
  next
    case False
    then show ?thesis using inv hi by simp
  qed
  then obtain E1 where f: "?first = Some E1" and i1: "editor_inv E1" and c1: "cy E1 = cy E"
    and b1: "cy E1 < int (numrows E1)" by blast
  have len1: "numrows E1 = length (row E1)" using i1 by (simp add: editor_inv_def doc_ok_def)
  have p1: "nat (cy E1) < length (row E1)" using b1 lo c1 len1 by simp
  obtain E2 where s2: "editorRowInsertChar E1 (nat (cy E1)) (cx E1) c = Some E2"
    and i2: "editor_inv E2"
    using editorRowInsertChar_inv [OF i1 p1] by blast
  have "editorInsertChar E c = Some (E2\<lparr>cx := cx E2 + 1\<rparr>)"
    unfolding editorInsertChar_def f using s2 b1 lo c1 len1 by simp
  moreover have "editor_inv (E2\<lparr>cx := cx E2 + 1\<rparr>)"
    using i2 by (simp add: editor_inv_def doc_ok_def idx_ok_def hl_ok_def)
  ultimately show ?thesis by blast
qed

lemma editorInsertNewline_inv:
  assumes inv: "editor_inv E"
    and cur: "cx E = 0 \<or> (0 \<le> cy E \<and> cy E < int (numrows E) \<and> 0 \<le> cx E
                \<and> cx E \<le> int (length (chars (row E ! nat (cy E)))))"
  shows "\<exists>E'. editorInsertNewline E = Some E' \<and> editor_inv E'"
proof (cases "cx E = 0")
  case True
  obtain E1 where s: "editorInsertRow E (cy E) [] = Some E1" and i1: "editor_inv E1"
    using editorInsertRow_inv [OF inv, of "cy E" "[]"] by blast
  have "editorInsertNewline E = Some (E1\<lparr>cy := cy E1 + 1, cx := 0\<rparr>)"
    using True s by (simp add: editorInsertNewline_def)
  moreover have "editor_inv (E1\<lparr>cy := cy E1 + 1, cx := 0\<rparr>)"
    using i1 by (simp add: editor_inv_def doc_ok_def idx_ok_def hl_ok_def)
  ultimately show ?thesis by blast
next
  case False
  with cur have lo: "0 \<le> cy E" and hi: "cy E < int (numrows E)" and xlo: "0 \<le> cx E"
    and xhi: "cx E \<le> int (length (chars (row E ! nat (cy E))))" by simp_all
  let ?y = "nat (cy E)"
  have len: "numrows E = length (row E)" using inv by (simp add: editor_inv_def doc_ok_def)
  obtain E1 where s1: "editorInsertRow E (cy E + 1) (drop (nat (cx E)) (chars (row E ! ?y))) = Some E1"
    and i1: "editor_inv E1" and c1: "same_cursor E E1" and n1: "numrows E1 = numrows E + 1"
    using editorInsertRow_inv [OF inv, of "cy E + 1" "drop (nat (cx E)) (chars (row E ! ?y))"] lo hi
    by auto
  have len1: "numrows E1 = length (row E1)" using i1 by (simp add: editor_inv_def doc_ok_def)
  have y1: "?y < length (row E1)" using hi lo n1 len1 by simp
  let ?r1 = "(row E1 ! ?y)\<lparr>chars := take (nat (cx E1)) (chars (row E1 ! ?y))\<rparr>"
  obtain rs where upd: "editorUpdateRow (E1\<lparr>row := (row E1)[?y := ?r1]\<rparr>) ?y = Some (E1\<lparr>row := rs\<rparr>)"
    and l2: "length rs = length (row E1)" and ix: "map idx rs = map idx (row E1)"
    and hs: "list_all hl_sized rs"
    using edit_row_inv [OF i1 y1, of ?r1] by auto
  have i2: "editor_inv (E1\<lparr>row := rs\<rparr>)" using editor_inv_rows(2) [OF i1 l2 ix hs] .
  have "editorInsertNewline E = Some (E1\<lparr>row := rs, cy := cy E1 + 1, cx := 0\<rparr>)"
    using False lo hi xlo xhi len s1 y1 upd
    by (simp add: editorInsertNewline_def Let_def)
  moreover have "editor_inv (E1\<lparr>row := rs, cy := cy E1 + 1, cx := 0\<rparr>)"
    using i2 by (simp add: editor_inv_def doc_ok_def idx_ok_def hl_ok_def)
  ultimately show ?thesis by blast
qed

lemma editorDelChar_inv:
  assumes inv: "editor_inv E" and lo: "0 \<le> cy E" and hi: "cy E \<le> int (numrows E)"
    and xlo: "0 \<le> cx E"
  shows "\<exists>E'. editorDelChar E = Some E' \<and> editor_inv E'"
proof (cases "cy E = int (numrows E) \<or> (cx E = 0 \<and> cy E = 0)")
  case True
  then have "editorDelChar E = Some E" by (auto simp add: editorDelChar_def)
  then show ?thesis using inv by simp
next
  case False
  let ?y = "nat (cy E)"
  have len: "numrows E = length (row E)" using inv by (simp add: editor_inv_def doc_ok_def)
  have yb: "cy E < int (length (row E))" using False hi len by auto
  have y: "?y < length (row E)" using yb lo by (simp add: nat_less_iff)
  show ?thesis
  proof (cases "cx E > 0")
    case True
    obtain E1 where s1: "editorRowDelChar E ?y (cx E - 1) = Some E1" and i1: "editor_inv E1"
      using editorRowDelChar_inv [OF inv y] by blast
    have "editorDelChar E = Some (E1\<lparr>cx := cx E1 - 1\<rparr>)"
      using False True lo yb s1 by (simp add: editorDelChar_def Let_def)
    moreover have "editor_inv (E1\<lparr>cx := cx E1 - 1\<rparr>)"
      using i1 by (simp add: editor_inv_def doc_ok_def idx_ok_def hl_ok_def)
    ultimately show ?thesis by blast
  next
    case nx: False
    with xlo False have x0: "cx E = 0" and ypos: "0 < cy E" using lo by simp_all
    let ?E1 = "E\<lparr>cx := int (length (chars (row E ! (?y - 1))))\<rparr>"
    have i1: "editor_inv ?E1"
      using inv by (simp add: editor_inv_def doc_ok_def idx_ok_def hl_ok_def)
    have p1: "?y - 1 < length (row ?E1)" using y by simp
    obtain E2 where s2: "editorRowAppendString ?E1 (?y - 1) (chars (row E ! ?y)) = Some E2"
      and i2: "editor_inv E2" and c2: "same_cursor ?E1 E2"
      using editorRowAppendString_inv [OF i1 p1] by blast
    obtain E3 where s3: "editorDelRow E2 (cy E2) = Some E3" and i3: "editor_inv E3"
      using editorDelRow_inv [OF i2] by blast
    have "editorDelChar E = Some (E3\<lparr>cy := cy E3 - 1\<rparr>)"
      using False nx lo yb ypos s2 s3
      by (simp add: editorDelChar_def Let_def)
    moreover have "editor_inv (E3\<lparr>cy := cy E3 - 1\<rparr>)"
      using i3 by (simp add: editor_inv_def doc_ok_def idx_ok_def hl_ok_def)
    ultimately show ?thesis by blast
  qed
qed

text \<open>The updates of a row: row creation and deletion, the character operations on a row,
  the render and highlight recomputations, syntax selection, and the three editing
  commands (a typed character, Enter, which splits a row, and Backspace, which joins two
  rows at column 0).\<close>

datatype edit =
  EInsertRow int string
  | EDelRow int
  | ERowInsertChar nat int char
  | ERowDelChar nat int
  | ERowAppendString nat string
  | EUpdateRow nat
  | EUpdateSyntax nat
  | ESelectSyntax
  | EInsertChar char
  | EInsertNewline
  | EDelChar

fun apply_edit :: "editorConfig \<Rightarrow> edit \<Rightarrow> editorConfig option" where
  "apply_edit E (EInsertRow at s) = editorInsertRow E at s"
| "apply_edit E (EDelRow at) = editorDelRow E at"
| "apply_edit E (ERowInsertChar p at c) = editorRowInsertChar E p at c"
| "apply_edit E (ERowDelChar p at) = editorRowDelChar E p at"
| "apply_edit E (ERowAppendString p s) = editorRowAppendString E p s"
| "apply_edit E (EUpdateRow p) = editorUpdateRow E p"
| "apply_edit E (EUpdateSyntax p) = editorUpdateSyntax E p"
| "apply_edit E ESelectSyntax = editorSelectSyntaxHighlight E"
| "apply_edit E (EInsertChar c) = editorInsertChar E c"
| "apply_edit E EInsertNewline = editorInsertNewline E"
| "apply_edit E EDelChar = editorDelChar E"

text \<open>What the C code needs of its arguments: a row operation is given a row of the
  document, and an editing command finds the cursor on a row of the document (or on the
  line after the last row) and within the row.\<close>

fun edit_defined :: "editorConfig \<Rightarrow> edit \<Rightarrow> bool" where
  "edit_defined E (EInsertRow at s) = True"
| "edit_defined E (EDelRow at) = True"
| "edit_defined E (ERowInsertChar p at c) = (p < numrows E)"
| "edit_defined E (ERowDelChar p at) = (p < numrows E)"
| "edit_defined E (ERowAppendString p s) = (p < numrows E)"
| "edit_defined E (EUpdateRow p) = (p < numrows E)"
| "edit_defined E (EUpdateSyntax p) = (p < numrows E)"
| "edit_defined E ESelectSyntax = True"
| "edit_defined E (EInsertChar c) = (0 \<le> cy E \<and> cy E \<le> int (numrows E))"
| "edit_defined E EInsertNewline =
     (cx E = 0 \<or> (0 \<le> cy E \<and> cy E < int (numrows E) \<and> 0 \<le> cx E
        \<and> cx E \<le> int (length (chars (row E ! nat (cy E))))))"
| "edit_defined E EDelChar = (0 \<le> cy E \<and> cy E \<le> int (numrows E) \<and> 0 \<le> cx E)"

text \<open>C3. From a state of the editor in which every row has one highlight entry per
  render character, each update for which the C code is defined returns a state in which
  again every row has \<open>length hl = length render\<close> (\<^verbatim>\<open>rsize\<close> is the length of the
  render), and which is again a well-formed document.\<close>

theorem highlight_length_invariant:
  assumes "editor_inv E" and "edit_defined E e"
  shows "\<exists>E'. apply_edit E e = Some E' \<and> editor_inv E'
           \<and> (\<forall>r \<in> set (row E'). length (hl r) = length (render r))"
proof -
  have len: "numrows E = length (row E)" using assms(1) by (simp add: editor_inv_def doc_ok_def)
  have "\<exists>E'. apply_edit E e = Some E' \<and> editor_inv E'"
  proof (cases e)
    case (EInsertRow at s)
    then show ?thesis using editorInsertRow_inv [OF assms(1), of at s] by auto
  next
    case (EDelRow at)
    then show ?thesis using editorDelRow_inv [OF assms(1), of at] by auto
  next
    case (ERowInsertChar p at c)
    then show ?thesis using editorRowInsertChar_inv [OF assms(1), of p at c] assms(2) len by auto
  next
    case (ERowDelChar p at)
    then show ?thesis using editorRowDelChar_inv [OF assms(1), of p at] assms(2) len by auto
  next
    case (ERowAppendString p s)
    then show ?thesis using editorRowAppendString_inv [OF assms(1), of p s] assms(2) len by auto
  next
    case (EUpdateRow p)
    then show ?thesis using editorUpdateRow_inv [OF assms(1), of p] assms(2) len by auto
  next
    case (EUpdateSyntax p)
    then show ?thesis using editorUpdateSyntax_inv [OF assms(1), of p] assms(2) len by auto
  next
    case ESelectSyntax
    then show ?thesis using editorSelectSyntaxHighlight_inv [OF assms(1)] by auto
  next
    case (EInsertChar c)
    then show ?thesis using editorInsertChar_inv [OF assms(1), of c] assms(2) by auto
  next
    case EInsertNewline
    then show ?thesis using editorInsertNewline_inv [OF assms(1)] assms(2) by auto
  next
    case EDelChar
    then show ?thesis using editorDelChar_inv [OF assms(1)] assms(2) by auto
  qed
  then obtain E' where s: "apply_edit E e = Some E'" and i: "editor_inv E'" by blast
  have "\<forall>r \<in> set (row E'). length (hl r) = length (render r)"
    using i by (simp add: editor_inv_def hl_ok_def list_all_iff hl_sized_def)
  with s i show ?thesis by blast
qed

theorem highlight_length_invariant_witness:
  "\<exists>E'. apply_edit (doc2\<lparr>cx := 1\<rparr>) EInsertNewline = Some E' \<and> editor_inv E'
     \<and> (\<forall>r \<in> set (row E'). length (hl r) = length (render r))"
proof -
  have a: "editor_inv (doc2\<lparr>cx := 1\<rparr>)"
    by (simp add: editor_inv_def doc_ok_def idx_ok_def hl_ok_def hl_sized_def doc2_def upt_rec)
  have b: "edit_defined (doc2\<lparr>cx := 1\<rparr>) EInsertNewline"
    by (simp add: doc2_def)
  show ?thesis using highlight_length_invariant [OF a b] .
qed

section \<open>Buffer column to render column and back\<close>

text \<open>The render column after one more character: the body of both loops.\<close>

definition advance :: "int \<Rightarrow> int \<Rightarrow> char \<Rightarrow> int" where
  "advance ts rx c = (if c = TAB then rx + ((ts - 1) - (rx smod ts)) else rx) + 1"

lemma advance_gt: "0 < ts \<Longrightarrow> 0 \<le> rx \<Longrightarrow> rx < advance ts rx c"
  using smod_int_compares(1) [of rx ts] by (simp add: advance_def)

lemma foldl_advance_ge: "0 < ts \<Longrightarrow> 0 \<le> rx \<Longrightarrow> rx \<le> foldl (advance ts) rx cs"
proof (induction cs arbitrary: rx)
  case Nil
  then show ?case by simp
next
  case (Cons c cs)
  have "rx < advance ts rx c" using Cons.prems by (rule advance_gt)
  moreover have "advance ts rx c \<le> foldl (advance ts) (advance ts rx c) cs"
    using Cons.IH [of "advance ts rx c"] Cons.prems(1) calculation Cons.prems(2) by simp
  ultimately show ?case by simp
qed

lemma cx_to_rx_loop_Cons:
  "cx_to_rx_loop ts (c # cs) (Suc n) rx =
     (if c = TAB \<and> ts = 0 then None else cx_to_rx_loop ts cs n (advance ts rx c))"
  by (simp add: advance_def)

lemma rx_to_cx_loop_Cons:
  "rx_to_cx_loop ts (c # cs) x cur rx =
     (if c = TAB \<and> ts = 0 then None
      else if advance ts cur c > rx then Some x
      else rx_to_cx_loop ts cs (x + 1) (advance ts cur c) rx)"
  by (simp add: advance_def Let_def)

lemma cx_to_rx_loop_foldl:
  "ts \<noteq> 0 \<Longrightarrow> n \<le> length cs \<Longrightarrow>
   cx_to_rx_loop ts (cs @ [NUL]) n rx = Some (foldl (advance ts) rx (take n cs))"
proof (induction cs arbitrary: n rx)
  case Nil
  then show ?case by simp
next
  case (Cons c cs)
  show ?case
  proof (cases n)
    case 0
    then show ?thesis by simp
  next
    case (Suc m)
    then show ?thesis
      using Cons by (simp del: cx_to_rx_loop.simps add: cx_to_rx_loop_Cons)
  qed
qed

lemma rx_to_cx_loop_foldl:
  "0 < ts \<Longrightarrow> 0 \<le> cur \<Longrightarrow> n \<le> length cs \<Longrightarrow>
   rx_to_cx_loop ts cs x cur (foldl (advance ts) cur (take n cs)) = Some (x + int n)"
proof (induction cs arbitrary: n x cur)
  case Nil
  then show ?case by simp
next
  case (Cons c cs)
  have gt: "cur < advance ts cur c" using Cons.prems(1,2) by (rule advance_gt)
  show ?case
  proof (cases n)
    case 0
    then show ?thesis
      using gt Cons.prems(1) by (simp del: rx_to_cx_loop.simps add: rx_to_cx_loop_Cons)
  next
    case (Suc m)
    have ge: "advance ts cur c \<le> foldl (advance ts) (advance ts cur c) (take m cs)"
      using foldl_advance_ge [of ts "advance ts cur c"] Cons.prems(1,2) gt by simp
    have "rx_to_cx_loop ts cs (x + 1) (advance ts cur c)
            (foldl (advance ts) (advance ts cur c) (take m cs)) = Some (x + 1 + int m)"
      using Cons.IH [of "advance ts cur c" m "x + 1"] Cons.prems Suc gt by simp
    then show ?thesis
      using Suc ge Cons.prems(1) by (simp del: rx_to_cx_loop.simps add: rx_to_cx_loop_Cons)
  qed
qed

lemma cx_rx_round_trip:
  assumes "0 < tab_stop E" and "0 \<le> x" and "x \<le> int (length (chars r))"
  shows "\<exists>rx. editorRowCxToRx E r x = Some rx \<and> editorRowRxToCx E r rx = Some x"
proof -
  let ?rx = "foldl (advance (tab_stop E)) 0 (take (nat x) (chars r))"
  have n: "nat x \<le> length (chars r)" using assms(2,3) by simp
  have a: "editorRowCxToRx E r x = Some ?rx"
    using cx_to_rx_loop_foldl [of "tab_stop E" "nat x" "chars r" 0] assms(1) n
    by (simp add: editorRowCxToRx_def)
  have b: "editorRowRxToCx E r ?rx = Some x"
    using rx_to_cx_loop_foldl [of "tab_stop E" 0 "nat x" "chars r" 0] assms(1,2) n
    by (simp add: editorRowRxToCx_def)
  show ?thesis using a b by blast
qed

text \<open>C6. With \<^verbatim>\<open>E.tab_stop = 4\<close>, for every row and every buffer column \<open>x\<close> with
  \<open>0 \<le> x \<le> size\<close>, \<^verbatim>\<open>editorRowCxToRx\<close> returns a render column, and
  \<^verbatim>\<open>editorRowRxToCx\<close> of that render column returns \<open>x\<close>; and in the row of the three
  characters a, tab, b the render column of buffer column 2 is 4.\<close>

theorem tab_mapping_round_trip:
  assumes "tab_stop E = 4"
  shows "(0 \<le> x \<and> x \<le> int (length (chars r)) \<longrightarrow>
            (\<exists>rx. editorRowCxToRx E r x = Some rx \<and> editorRowRxToCx E r rx = Some x))
         \<and> (chars r = [CHR ''a'', TAB, CHR ''b''] \<longrightarrow> editorRowCxToRx E r 2 = Some 4)"
proof (intro conjI impI)
  assume "0 \<le> x \<and> x \<le> int (length (chars r))"
  then show "\<exists>rx. editorRowCxToRx E r x = Some rx \<and> editorRowRxToCx E r rx = Some x"
    using cx_rx_round_trip [of E x r] assms by simp
next
  assume "chars r = [CHR ''a'', TAB, CHR ''b'']"
  then show "editorRowCxToRx E r 2 = Some 4"
    using assms by (simp add: editorRowCxToRx_def numeral_2_eq_2 TAB_def smod_int_alt_def)
qed

definition row_a_tab_b :: erow where
  "row_a_tab_b = \<lparr>idx = 0, chars = [CHR ''a'', TAB, CHR ''b''], render = ''a   b'',
     hl = [HL_NORMAL, HL_NORMAL, HL_NORMAL, HL_NORMAL, HL_NORMAL], hl_open_comment = False\<rparr>"

theorem tab_mapping_round_trip_witness:
  "editorRowCxToRx initEditor row_a_tab_b 2 = Some 4
   \<and> editorRowRxToCx initEditor row_a_tab_b 4 = Some 2"
proof -
  have a: "tab_stop initEditor = 4" by (simp add: initEditor_def)
  have c: "chars row_a_tab_b = [CHR ''a'', TAB, CHR ''b'']" by (simp add: row_a_tab_b_def)
  have b: "(0::int) \<le> 2 \<and> 2 \<le> int (length (chars row_a_tab_b))" by (simp add: c)
  from tab_mapping_round_trip [OF a, of 2 row_a_tab_b] b c
  have "\<exists>rx. editorRowCxToRx initEditor row_a_tab_b 2 = Some rx
          \<and> editorRowRxToCx initEditor row_a_tab_b rx = Some 2"
    and "editorRowCxToRx initEditor row_a_tab_b 2 = Some 4" by blast+
  then show ?thesis by auto
qed

section \<open>Loading a file and writing it back\<close>

lemma foldl_buf:
  "foldl (\<lambda>b r. b @ chars r @ [NL]) acc rs = acc @ concat (map (\<lambda>r. chars r @ [NL]) rs)"
  by (induction rs arbitrary: acc) simp_all

lemma foldl_totlen:
  "foldl (\<lambda>t r. t + (int (length (chars r)) + 1)) t0 rs
   = t0 + int (length (concat (map (\<lambda>r. chars r @ [NL]) rs)))"
  by (induction rs arbitrary: t0) simp_all

lemma editorRowsToString_concat:
  assumes "numrows E = length (row E)"
    and "int (length (concat (map (\<lambda>r. chars r @ [NL]) (row E)))) < 2 ^ 31"
  shows "editorRowsToString E
         = Some (concat (map (\<lambda>r. chars r @ [NL]) (row E)),
                 int (length (concat (map (\<lambda>r. chars r @ [NL]) (row E)))))"
  using assms by (simp add: editorRowsToString_def Let_def foldl_buf foldl_totlen)

lemma getline_line: "NL \<notin> set l \<Longrightarrow> getline (l @ NL # rest) = Some (l @ [NL], rest)"
proof -
  assume a: "NL \<notin> set l"
  have tw: "takeWhile (\<lambda>c. c \<noteq> NL) (l @ NL # rest) = l"
    using a by (induction l) auto
  show ?thesis by (simp add: getline_def Let_def tw)
qed

lemma getline_last: "NL \<notin> set t \<Longrightarrow> t \<noteq> [] \<Longrightarrow> getline t = Some (t, [])"
proof -
  assume a: "NL \<notin> set t" and b: "t \<noteq> []"
  have tw: "takeWhile (\<lambda>c. c \<noteq> NL) t = t" using a by (induction t) auto
  show ?thesis using b by (simp add: getline_def Let_def tw)
qed

lemma getlines_Nil: "getlines [] = []"
  by (subst getlines.simps) (simp add: getline_def)

lemma getlines_line: "NL \<notin> set l \<Longrightarrow> getlines (l @ NL # rest) = (l @ [NL]) # getlines rest"
  by (subst getlines.simps) (simp add: getline_line)

lemma getlines_last: "NL \<notin> set t \<Longrightarrow> t \<noteq> [] \<Longrightarrow> getlines t = [t]"
  by (subst getlines.simps) (simp add: getline_last getlines_Nil)

lemma strip_eol_plain: "l = [] \<or> (last l \<noteq> NL \<and> last l \<noteq> CR) \<Longrightarrow> strip_eol l = l"
proof (cases l rule: rev_cases)
  case Nil
  then show ?thesis by (simp add: strip_eol_def)
next
  case (snoc ys y)
  assume "l = [] \<or> (last l \<noteq> NL \<and> last l \<noteq> CR)"
  with snoc show ?thesis by (simp add: strip_eol_def)
qed

lemma strip_eol_NL: "strip_eol (l @ [NL]) = strip_eol l"
  by (simp add: strip_eol_def)

lemma strip_eol_CR: "strip_eol (l @ [CR]) = strip_eol l"
  by (simp add: strip_eol_def)

text \<open>A text file as lines with their endings: each line is free of newlines and does not
  end in a carriage return, and its ending is \<open>\\n\<close> or \<open>\\r\\n\<close>; after the last ending
  there may be a last line without one.\<close>

definition text_line :: "string \<Rightarrow> bool" where
  "text_line l = (NL \<notin> set l \<and> (l = [] \<or> last l \<noteq> CR))"

definition line_ending :: "string \<Rightarrow> bool" where
  "line_ending e = (e = [NL] \<or> e = [CR, NL])"

definition file_of :: "(string \<times> string) list \<Rightarrow> string \<Rightarrow> string" where
  "file_of ls t = concat (map (\<lambda>(l, e). l @ e) ls) @ t"

definition normalized :: "(string \<times> string) list \<Rightarrow> string \<Rightarrow> string" where
  "normalized ls t = concat (map (\<lambda>(l, e). l @ [NL]) ls) @ (if t = [] then [] else t @ [NL])"

lemma NL_neq_CR: "NL \<noteq> CR"
  by (simp add: NL_def CR_def)

lemma stripped_lines:
  assumes "\<forall>(l, e) \<in> set ls. text_line l \<and> line_ending e" and "text_line t"
  shows "map strip_eol (getlines (file_of ls t)) = map fst ls @ (if t = [] then [] else [t])"
  using assms(1)
proof (induction ls)
  case Nil
  show ?case
  proof (cases "t = []")
    case True
    then show ?thesis by (simp add: file_of_def getlines_Nil)
  next
    case False
    then have "getlines t = [t]" using assms(2) by (simp add: getlines_last text_line_def)
    moreover have "t = [] \<or> (last t \<noteq> NL \<and> last t \<noteq> CR)"
      using assms(2) by (metis last_in_set text_line_def)
    then have "strip_eol t = t" by (rule strip_eol_plain)
    ultimately show ?thesis using False by (simp add: file_of_def)
  qed
next
  case (Cons p ls)
  obtain l e where p: "p = (l, e)" by (cases p)
  have tl: "text_line l" and le: "line_ending e" using Cons.prems p by simp_all
  have rest: "map strip_eol (getlines (file_of ls t)) = map fst ls @ (if t = [] then [] else [t])"
    using Cons.IH Cons.prems by simp
  have "l = [] \<or> (last l \<noteq> NL \<and> last l \<noteq> CR)"
    using tl by (metis last_in_set text_line_def)
  then have plain: "strip_eol l = l" by (rule strip_eol_plain)
  have f: "file_of (p # ls) t = l @ e @ file_of ls t" by (simp add: file_of_def p)
  show ?case
  proof (cases "e = [NL]")
    case True
    have "getlines (file_of (p # ls) t) = (l @ [NL]) # getlines (file_of ls t)"
      using getlines_line [of l "file_of ls t"] tl True f by (simp add: text_line_def)
    then show ?thesis using rest plain p by (simp add: strip_eol_NL)
  next
    case False
    with le have e: "e = [CR, NL]" by (simp add: line_ending_def)
    have "NL \<notin> set (l @ [CR])" using tl NL_neq_CR by (simp add: text_line_def)
    then have "getlines ((l @ [CR]) @ NL # file_of ls t) = ((l @ [CR]) @ [NL]) # getlines (file_of ls t)"
      by (rule getlines_line)
    then have "getlines (file_of (p # ls) t) = (l @ [CR, NL]) # getlines (file_of ls t)"
      using f e by simp
    moreover have "strip_eol (l @ [CR, NL]) = l"
      using strip_eol_NL [of "l @ [CR]"] strip_eol_CR [of l] plain by simp
    ultimately show ?thesis using rest p by simp
  qed
qed

lemma open_loop_ok:
  "editor_inv E \<Longrightarrow>
   \<exists>E'. open_loop ls E = Some E' \<and> editor_inv E'
      \<and> map chars (row E') = map chars (row E) @ map strip_eol ls"
proof (induction ls arbitrary: E)
  case Nil
  then show ?case by simp
next
  case (Cons l ls)
  have d: "doc_ok E" and ts: "0 < tab_stop E" and h: "hl_ok E"
    using Cons.prems by (simp_all add: editor_inv_def)
  have nl: "numrows E = length (row E)" using d by (simp add: doc_ok_def)
  let ?s = "strip_eol l"
  obtain rs where res: "editorInsertRow E (int (numrows E)) ?s
        = Some (E\<lparr>row := rs, numrows := numrows E + 1, dirty := dirty E + 1\<rparr>)"
    and len: "length rs = numrows E + 1" and ix: "map idx rs = map int [0..<numrows E + 1]"
    and ch: "map chars rs = take (nat (int (numrows E))) (map chars (row E)) @ [?s]
                @ drop (nat (int (numrows E))) (map chars (row E))"
    and hs: "hl_ok E \<longrightarrow> list_all hl_sized rs"
    using editorInsertRow_ok [OF d ts, of "int (numrows E)" ?s] by auto
  let ?E1 = "E\<lparr>row := rs, numrows := numrows E + 1, dirty := dirty E + 1\<rparr>"
  have i1: "editor_inv ?E1"
    using len ix hs h ts by (simp add: editor_inv_def doc_ok_def idx_ok_def hl_ok_def)
  have ch1: "map chars (row ?E1) = map chars (row E) @ [?s]" using ch nl by simp
  obtain E' where "open_loop ls ?E1 = Some E'" and "editor_inv E'"
    and "map chars (row E') = map chars (row ?E1) @ map strip_eol ls"
    using Cons.IH [OF i1] by blast
  then show ?case using res ch1 by simp
qed

lemma editorOpen_ok:
  assumes inv: "editor_inv E" and empty: "numrows E = 0"
  shows "\<exists>E'. editorOpen E fname (Some content) = Some E' \<and> doc_ok E' \<and> dirty E' = 0
            \<and> map chars (row E') = map strip_eol (getlines content)"
proof -
  let ?E0 = "E\<lparr>filename := Some fname\<rparr>"
  have i0: "editor_inv ?E0"
    using inv by (simp add: editor_inv_def doc_ok_def idx_ok_def hl_ok_def)
  obtain E1 where s1: "editorSelectSyntaxHighlight ?E0 = Some E1" and i1: "editor_inv E1"
    and n1: "numrows E1 = numrows ?E0"
    using editorSelectSyntaxHighlight_inv [OF i0] by blast
  have r1: "row E1 = []" using i1 n1 empty by (simp add: editor_inv_def doc_ok_def)
  obtain E2 where s2: "open_loop (getlines content) E1 = Some E2" and i2: "editor_inv E2"
    and c2: "map chars (row E2) = map chars (row E1) @ map strip_eol (getlines content)"
    using open_loop_ok [OF i1] by blast
  have "editorOpen E fname (Some content) = Some (E2\<lparr>dirty := 0\<rparr>)"
    using s1 s2 by (simp add: editorOpen_def)
  moreover have "doc_ok (E2\<lparr>dirty := 0\<rparr>)"
    using i2 by (simp add: editor_inv_def doc_ok_def idx_ok_def)
  ultimately show ?thesis using c2 r1 by simp
qed

lemma concat_chars: "concat (map (\<lambda>r. chars r @ [NL]) rs) = concat (map (\<lambda>s. s @ [NL]) (map chars rs))"
  by (simp add: comp_def)

text \<open>Normalized line endings as the specification words them: every \<open>\\r\\n\<close> becomes
  \<open>\\n\<close>, every other character stays, and a last line without a line ending gets
  one.\<close>

fun spec_normalize_endings :: "string \<Rightarrow> string" where
  "spec_normalize_endings [] = []"
| "spec_normalize_endings [c] = (if c = NL then [NL] else [c, NL])"
| "spec_normalize_endings (c # d # rest) =
     (if c = CR \<and> d = NL then NL # spec_normalize_endings rest
      else c # spec_normalize_endings (d # rest))"

text \<open>Load, then serialize: the bytes that \<^verbatim>\<open>editorRowsToString\<close> returns for a file
  opened in the initial editor.\<close>

definition load_serialize :: "string \<Rightarrow> string option" where
  "load_serialize content =
     map_option fst (Option.bind (editorOpen initEditor ''a.txt'' (Some content)) editorRowsToString)"

lemma spec_normalize_NL: "spec_normalize_endings (NL # rest) = NL # spec_normalize_endings rest"
  using NL_neq_CR by (cases rest) auto

lemma spec_normalize_line:
  "NL \<notin> set l \<Longrightarrow> l = [] \<or> last l \<noteq> CR \<Longrightarrow>
   spec_normalize_endings (l @ NL # rest) = l @ NL # spec_normalize_endings rest"
proof (induction l)
  case Nil
  then show ?case by (simp add: spec_normalize_NL)
next
  case (Cons c l')
  show ?case
  proof (cases l')
    case Nil
    then have "c \<noteq> CR" using Cons.prems by simp
    then show ?thesis using Nil by (simp add: spec_normalize_NL)
  next
    case (Cons d l'')
    then have "d \<noteq> NL" using Cons.prems by auto
    moreover have "spec_normalize_endings (l' @ NL # rest) = l' @ NL # spec_normalize_endings rest"
      using Cons.IH Cons.prems Cons by auto
    ultimately show ?thesis using Cons by simp
  qed
qed

lemma spec_normalize_crlf:
  "NL \<notin> set l \<Longrightarrow>
   spec_normalize_endings (l @ CR # NL # rest) = l @ NL # spec_normalize_endings rest"
proof (induction l)
  case Nil
  then show ?case by simp
next
  case (Cons c l')
  have ih: "spec_normalize_endings (l' @ CR # NL # rest) = l' @ NL # spec_normalize_endings rest"
    using Cons by simp
  show ?case
  proof (cases l')
    case Nil
    then show ?thesis using ih NL_neq_CR by auto
  next
    case (Cons d l'')
    then have "d \<noteq> NL" using Cons.prems by auto
    then show ?thesis using ih Cons by simp
  qed
qed

lemma spec_normalize_last:
  "NL \<notin> set t \<Longrightarrow> t \<noteq> [] \<Longrightarrow> spec_normalize_endings t = t @ [NL]"
proof (induction t)
  case Nil
  then show ?case by simp
next
  case (Cons c t')
  show ?case
  proof (cases t')
    case Nil
    then show ?thesis using Cons.prems by simp
  next
    case (Cons d t'')
    then have "d \<noteq> NL" using Cons.prems by auto
    moreover have "spec_normalize_endings t' = t' @ [NL]" using Cons.IH Cons.prems Cons by auto
    ultimately show ?thesis using Cons by simp
  qed
qed

lemma spec_normalize_file:
  assumes "\<forall>(l, e) \<in> set ls. text_line l \<and> line_ending e" and "text_line t"
  shows "spec_normalize_endings (file_of ls t) = normalized ls t"
  using assms(1)
proof (induction ls)
  case Nil
  show ?case
  proof (cases "t = []")
    case True
    then show ?thesis by (simp add: file_of_def normalized_def)
  next
    case False
    then show ?thesis
      using assms(2) by (simp add: file_of_def normalized_def spec_normalize_last text_line_def)
  qed
next
  case (Cons p ls)
  obtain l e where p: "p = (l, e)" by (cases p)
  have tl: "text_line l" and le: "line_ending e" using Cons.prems p by simp_all
  have rest: "spec_normalize_endings (file_of ls t) = normalized ls t"
    using Cons.IH Cons.prems by simp
  have f: "file_of (p # ls) t = l @ e @ file_of ls t" by (simp add: file_of_def p)
  have n: "normalized (p # ls) t = l @ NL # normalized ls t" by (simp add: normalized_def p)
  show ?case
  proof (cases "e = [NL]")
    case True
    then show ?thesis
      using spec_normalize_line [of l "file_of ls t"] tl f n rest by (simp add: text_line_def)
  next
    case False
    with le have "e = [CR, NL]" by (simp add: line_ending_def)
    then show ?thesis
      using spec_normalize_crlf [of l "file_of ls t"] tl f n rest by (simp add: text_line_def)
  qed
qed

text \<open>C7 as stated fails at a line that ends in a carriage return before its
  \<open>\\r\\n\<close>: for the file \<open>a\\r\\r\\n\<close> the editor writes back \<open>a\\n\<close>, while the
  content with its line ending normalized is \<open>a\\r\\n\<close>. The loop of \<^verbatim>\<open>editorOpen\<close>
  strips every trailing \<open>\\r\<close> and \<open>\\n\<close> of a line, not only its line ending.\<close>

theorem load_then_serialize_counterexample:
  "load_serialize (''a'' @ [CR, CR, NL]) = Some (''a'' @ [NL])
   \<and> spec_normalize_endings (''a'' @ [CR, CR, NL]) = ''a'' @ [CR, NL]
   \<and> load_serialize (''a'' @ [CR, CR, NL]) \<noteq> Some (spec_normalize_endings (''a'' @ [CR, CR, NL]))"
proof -
  have a: "load_serialize (''a'' @ [CR, CR, NL]) = Some (''a'' @ [NL])"
    unfolding load_serialize_def by code_simp
  have b: "spec_normalize_endings (''a'' @ [CR, CR, NL]) = ''a'' @ [CR, NL]"
    by (simp add: NL_def CR_def)
  have c: "''a'' @ [NL] \<noteq> ''a'' @ [CR, NL]" by (simp add: NL_def CR_def)
  show ?thesis using a b c by simp
qed

text \<open>C7, amended. Opening a file in an editor without rows returns, and the rows then
  hold, in order, each line that \<^verbatim>\<open>getline\<close> read without all of its trailing \<open>\\n\<close>
  and \<open>\\r\<close> characters; \<^verbatim>\<open>editorRowsToString\<close> writes each row followed by exactly one
  \<open>\\n\<close>, with nothing suppressed or translated, and reports the length of what it
  wrote, as long as that length fits an \<^verbatim>\<open>int\<close>. For a file made of lines that do not
  end in a carriage return, each with the ending \<open>\\n\<close> or \<open>\\r\\n\<close> (and possibly a
  last line without an ending), what is written is the content with its line endings
  normalized: the same lines, each followed by exactly one \<open>\\n\<close>.\<close>

theorem load_then_serialize:
  assumes "editor_inv E" and "numrows E = 0"
  shows "\<exists>E' buf. editorOpen E fname (Some content) = Some E'
           \<and> buf = concat (map (\<lambda>r. chars r @ [NL]) (row E'))
           \<and> buf = concat (map (\<lambda>l. strip_eol l @ [NL]) (getlines content))
           \<and> (int (length buf) < 2 ^ 31 \<longrightarrow>
                 editorRowsToString E' = Some (buf, int (length buf)))
           \<and> (\<forall>ls t. content = file_of ls t \<and> (\<forall>(l, e) \<in> set ls. text_line l \<and> line_ending e)
                  \<and> text_line t
                  \<longrightarrow> buf = normalized ls t \<and> buf = spec_normalize_endings content)"
proof -
  obtain E' where o: "editorOpen E fname (Some content) = Some E'" and d: "doc_ok E'"
    and c: "map chars (row E') = map strip_eol (getlines content)"
    using editorOpen_ok [OF assms] by blast
  let ?buf = "concat (map (\<lambda>r. chars r @ [NL]) (row E'))"
  have s: "int (length ?buf) < 2 ^ 31 \<longrightarrow> editorRowsToString E' = Some (?buf, int (length ?buf))"
    using d editorRowsToString_concat [of E'] by (simp add: doc_ok_def)
  have g: "?buf = concat (map (\<lambda>l. strip_eol l @ [NL]) (getlines content))"
    by (simp add: concat_chars c comp_def)
  have n: "\<forall>ls t. content = file_of ls t \<and> (\<forall>(l, e) \<in> set ls. text_line l \<and> line_ending e)
                  \<and> text_line t
                  \<longrightarrow> ?buf = normalized ls t \<and> ?buf = spec_normalize_endings content"
  proof (intro allI impI)
    fix ls t
    assume a: "content = file_of ls t \<and> (\<forall>(l, e) \<in> set ls. text_line l \<and> line_ending e)
                  \<and> text_line t"
    then have "map chars (row E') = map fst ls @ (if t = [] then [] else [t])"
      using stripped_lines [of ls t] c by simp
    then have "?buf = concat (map (\<lambda>s. s @ [NL]) (map fst ls @ (if t = [] then [] else [t])))"
      by (simp only: concat_chars)
    then have b: "?buf = normalized ls t"
      by (simp add: normalized_def comp_def case_prod_unfold)
    have "spec_normalize_endings content = normalized ls t"
      using a spec_normalize_file [of ls t] by simp
    with b show "?buf = normalized ls t \<and> ?buf = spec_normalize_endings content" by simp
  qed
  show ?thesis using o s g n by blast
qed

theorem load_then_serialize_witness:
  "\<exists>E' buf. editorOpen initEditor ''a.txt'' (Some (''ab'' @ [CR, NL] @ ''cd'' @ [NL])) = Some E'
     \<and> editorRowsToString E' = Some (buf, 6)
     \<and> buf = ''ab'' @ [NL] @ ''cd'' @ [NL]
     \<and> buf = spec_normalize_endings (''ab'' @ [CR, NL] @ ''cd'' @ [NL])"
proof -
  let ?ls = "[(''ab'', [CR, NL]), (''cd'', [NL])]"
  let ?content = "''ab'' @ [CR, NL] @ ''cd'' @ [NL]"
  have a: "editor_inv initEditor"
    by (simp add: editor_inv_def doc_ok_def idx_ok_def hl_ok_def initEditor_def)
  have b: "numrows initEditor = 0" by (simp add: initEditor_def)
  have c: "?content = file_of ?ls []" by (simp add: file_of_def)
  have d: "\<forall>(l, e) \<in> set ?ls. text_line l \<and> line_ending e"
    by (simp add: text_line_def line_ending_def NL_def CR_def)
  have e: "text_line []" by (simp add: text_line_def)
  have f: "normalized ?ls [] = ''ab'' @ [NL] @ ''cd'' @ [NL]" by (simp add: normalized_def)
  from load_then_serialize [OF a b, of "''a.txt''" ?content]
  obtain E' buf where
    o: "editorOpen initEditor ''a.txt'' (Some ?content) = Some E'"
    and s: "int (length buf) < 2 ^ 31 \<longrightarrow> editorRowsToString E' = Some (buf, int (length buf))"
    and n: "\<forall>ls t. ?content = file_of ls t
              \<and> (\<forall>(l, e) \<in> set ls. text_line l \<and> line_ending e) \<and> text_line t
              \<longrightarrow> buf = normalized ls t \<and> buf = spec_normalize_endings ?content"
    by blast
  from n c d e have m: "buf = normalized ?ls [] \<and> buf = spec_normalize_endings ?content"
    by blast
  with f have v: "buf = ''ab'' @ [NL] @ ''cd'' @ [NL]" by simp
  then have "int (length buf) = 6" by simp
  with s have "editorRowsToString E' = Some (buf, 6)" by simp
  with o v m show ?thesis by blast
qed

section \<open>Syntax selection\<close>

text \<open>Selection as the specification words it: a pattern that starts with a dot matches
  as a suffix of the file name, any other pattern as a substring, and the first entry of
  the registry with a matching pattern is selected.\<close>

definition spec_pattern_matches :: "string \<Rightarrow> string \<Rightarrow> bool" where
  "spec_pattern_matches pat fname =
     (if peek pat = CHR ''.'' then suffix pat fname else sublist pat fname)"

definition spec_select :: "editorSyntax list \<Rightarrow> string \<Rightarrow> editorSyntax option" where
  "spec_select db fname =
     List.find (\<lambda>s. \<exists>pat \<in> set (filematch s). spec_pattern_matches pat fname) db"

lemma strstr_sublist: "(strstr h n \<noteq> None) = sublist n h"
  by (induction h) (auto simp add: sublist_Cons_right)

lemma strrchr_None: "(strrchr xs c = None) = (c \<notin> set xs)"
  by (induction xs) (auto split: option.splits)

lemma strrchr_suffix:
  assumes "pat = c # rest" and "c \<notin> set rest"
  shows "(strrchr fname c = Some pat) = suffix pat fname"
proof (induction fname)
  case Nil
  then show ?case using assms by simp
next
  case (Cons x xs)
  show ?case
  proof (cases "strrchr xs c")
    case None
    then have notin: "c \<notin> set xs" by (simp add: strrchr_None)
    have "\<not> suffix pat xs" using Cons None by simp
    then have "suffix pat (x # xs) = (pat = x # xs)" by (auto simp add: suffix_Cons)
    moreover have "(strrchr (x # xs) c = Some pat) = (pat = x # xs)"
      using None assms by auto
    ultimately show ?thesis by simp
  next
    case (Some t)
    then have "c \<in> set xs" using strrchr_None [of xs c] by simp
    then have ne: "pat \<noteq> x # xs" using assms by auto
    have "(strrchr (x # xs) c = Some pat) = (t = pat)" using Some by auto
    also have "\<dots> = suffix pat xs" using Cons Some by auto
    also have "\<dots> = suffix pat (x # xs)" using ne by (auto simp add: suffix_Cons)
    finally show ?thesis .
  qed
qed

text \<open>In the registry every pattern that starts with a dot has no other dot.\<close>

definition dot_pattern_ok :: "string \<Rightarrow> bool" where
  "dot_pattern_ok pat = (peek pat = CHR ''.'' \<longrightarrow> CHR ''.'' \<notin> set (tl pat))"

lemma HLDB_patterns: "\<forall>s \<in> set HLDB. \<forall>pat \<in> set (filematch s). dot_pattern_ok pat"
  by (simp add: HLDB_def C_HL_extensions_def GO_HL_extensions_def PY_HL_extensions_def
      RUST_HL_extensions_def dot_pattern_ok_def)

lemma filematch_loop_spec:
  assumes "\<forall>pat \<in> set pats. dot_pattern_ok pat"
  shows "filematch_loop pats fname (strrchr fname (CHR ''.''))
         = (\<exists>pat \<in> set pats. spec_pattern_matches pat fname)"
  using assms
proof (induction pats)
  case Nil
  then show ?case by simp
next
  case (Cons pat pats)
  have rest: "filematch_loop pats fname (strrchr fname (CHR ''.''))
         = (\<exists>pat \<in> set pats. spec_pattern_matches pat fname)"
    using Cons by simp
  have one: "((peek pat = CHR ''.'' \<and> strrchr fname (CHR ''.'') \<noteq> None
                \<and> strrchr fname (CHR ''.'') = Some pat)
              \<or> (peek pat \<noteq> CHR ''.'' \<and> strstr fname pat \<noteq> None))
             = spec_pattern_matches pat fname"
  proof (cases "peek pat = CHR ''.''")
    case True
    then obtain rest where p: "pat = CHR ''.'' # rest" by (cases pat) (auto simp: NUL_def)
    have "CHR ''.'' \<notin> set rest" using Cons.prems True p by (simp add: dot_pattern_ok_def)
    then have "(strrchr fname (CHR ''.'') = Some pat) = suffix pat fname"
      using strrchr_suffix [OF p] by simp
    then show ?thesis using True by (auto simp add: spec_pattern_matches_def)
  next
    case False
    then show ?thesis using strstr_sublist [of fname pat] by (simp add: spec_pattern_matches_def)
  qed
  show ?case using one rest by (simp add: Let_def)
qed

lemma hldb_loop_find:
  "hldb_loop db fname ext = List.find (\<lambda>s. filematch_loop (filematch s) fname ext) db"
  by (induction db) simp_all

lemma hldb_loop_spec:
  "hldb_loop HLDB fname (strrchr fname (CHR ''.'')) = spec_select HLDB fname"
  unfolding hldb_loop_find spec_select_def
  by (rule find_cong) (simp_all add: filematch_loop_spec HLDB_patterns)

lemma editorUpdateSyntax_no_syntax:
  assumes "esyntax E = None" and "p < length (row E)"
  shows "editorUpdateSyntax E p
         = Some (E\<lparr>row := (row E)[p := (row E ! p)\<lparr>hl := replicate (length (render (row E ! p))) HL_NORMAL\<rparr>]\<rparr>)"
  using assms by (subst editorUpdateSyntax.simps) (simp add: Let_def)

text \<open>C4. For every file name, \<^verbatim>\<open>editorSelectSyntaxHighlight\<close> returns with
  \<^verbatim>\<open>E.syntax\<close> set to the first entry of \<^verbatim>\<open>HLDB\<close>, in its order, that has a pattern
  matching the file name, where a pattern starting with a dot matches as a suffix and
  any other pattern as a substring. When no entry matches, no syntax is active, the
  rows are left as they are, and highlighting a row then gives every character of it
  \<^verbatim>\<open>HL_NORMAL\<close> and touches no other row.\<close>

theorem syntax_selection:
  assumes "editor_inv E" and "filename E = Some fname"
  shows "\<exists>E'. editorSelectSyntaxHighlight E = Some E'
           \<and> esyntax E' = spec_select HLDB fname
           \<and> (spec_select HLDB fname = None \<longrightarrow>
                 row E' = row E
                 \<and> (\<forall>p<numrows E'. \<exists>E''. editorUpdateSyntax E' p = Some E''
                        \<and> hl (row E'' ! p) = replicate (length (render (row E' ! p))) HL_NORMAL
                        \<and> (\<forall>j. j \<noteq> p \<longrightarrow> row E'' ! j = row E' ! j)))"
proof (cases "spec_select HLDB fname")
  case None
  let ?E' = "E\<lparr>esyntax := None\<rparr>"
  have len: "numrows E = length (row E)" using assms(1) by (simp add: editor_inv_def doc_ok_def)
  have s: "editorSelectSyntaxHighlight E = Some ?E'"
    using assms(2) None hldb_loop_spec [of fname] by (simp add: editorSelectSyntaxHighlight_def)
  have "\<forall>p<numrows ?E'. \<exists>E''. editorUpdateSyntax ?E' p = Some E''
          \<and> hl (row E'' ! p) = replicate (length (render (row ?E' ! p))) HL_NORMAL
          \<and> (\<forall>j. j \<noteq> p \<longrightarrow> row E'' ! j = row ?E' ! j)"
  proof (intro allI impI)
    fix p assume "p < numrows ?E'"
    then have p: "p < length (row ?E')" using len by simp
    have e: "esyntax ?E' = None" by simp
    show "\<exists>E''. editorUpdateSyntax ?E' p = Some E''
          \<and> hl (row E'' ! p) = replicate (length (render (row ?E' ! p))) HL_NORMAL
          \<and> (\<forall>j. j \<noteq> p \<longrightarrow> row E'' ! j = row ?E' ! j)"
      using editorUpdateSyntax_no_syntax [OF e p] p by simp
  qed
  then show ?thesis using s None by simp
next
  case (Some syn)
  let ?E2 = "E\<lparr>esyntax := Some syn\<rparr>"
  have i2: "editor_inv ?E2"
    using assms(1) by (simp add: editor_inv_def doc_ok_def idx_ok_def hl_ok_def)
  have all: "\<forall>k \<in> set [0..<numrows E]. k < numrows ?E2" by simp
  have chain: "\<And>ks X. editor_inv X \<Longrightarrow> \<forall>k \<in> set ks. k < numrows X \<Longrightarrow>
                 \<exists>X'. update_rows ks X = Some X' \<and> esyntax X' = esyntax X"
  proof -
    fix ks X
    show "editor_inv X \<Longrightarrow> \<forall>k \<in> set ks. k < numrows X \<Longrightarrow>
                 \<exists>X'. update_rows ks X = Some X' \<and> esyntax X' = esyntax X"
    proof (induction ks arbitrary: X)
      case Nil
      then show ?case by simp
    next
      case (Cons k ks)
      have "k < length (row X)" using Cons.prems by (simp add: editor_inv_def doc_ok_def)
      then obtain X1 where s1: "editorUpdateSyntax X k = Some X1" and i1: "editor_inv X1"
        and n1: "numrows X1 = numrows X" and e1: "esyntax X1 = esyntax X"
        using editorUpdateSyntax_inv [OF Cons.prems(1)] by blast
      have "\<forall>k \<in> set ks. k < numrows X1" using Cons.prems(2) n1 by simp
      from Cons.IH [OF i1 this] obtain X' where "update_rows ks X1 = Some X'"
        and "esyntax X' = esyntax X1" by blast
      then show ?case using s1 e1 by simp
    qed
  qed
  obtain E' where u: "update_rows [0..<numrows E] ?E2 = Some E'" and e: "esyntax E' = esyntax ?E2"
    using chain [OF i2 all] by blast
  have "editorSelectSyntaxHighlight E = Some E'"
    using assms(2) Some hldb_loop_spec [of fname] u
    by (simp add: editorSelectSyntaxHighlight_def)
  then show ?thesis using e Some by simp
qed

theorem syntax_selection_witness:
  "\<exists>E'. editorSelectSyntaxHighlight (doc2\<lparr>filename := Some ''notes.txt''\<rparr>) = Some E'
     \<and> esyntax E' = None \<and> spec_select HLDB ''notes.txt'' = None \<and> row E' = row doc2
     \<and> (\<exists>E''. editorUpdateSyntax E' 0 = Some E'' \<and> hl (row E'' ! 0) = [HL_NORMAL, HL_NORMAL])"
proof -
  let ?E = "doc2\<lparr>filename := Some ''notes.txt''\<rparr>"
  have a: "editor_inv ?E"
    by (simp add: editor_inv_def doc_ok_def idx_ok_def hl_ok_def hl_sized_def doc2_def upt_rec)
  have b: "filename ?E = Some ''notes.txt''" by simp
  have n: "spec_select HLDB ''notes.txt'' = None"
    unfolding hldb_loop_spec [symmetric] by code_simp
  from syntax_selection [OF a b] n
  obtain E' where s: "editorSelectSyntaxHighlight ?E = Some E'" and e: "esyntax E' = None"
    and r: "row E' = row ?E"
    and h: "\<forall>p<numrows E'. \<exists>E''. editorUpdateSyntax E' p = Some E''
              \<and> hl (row E'' ! p) = replicate (length (render (row E' ! p))) HL_NORMAL
              \<and> (\<forall>j. j \<noteq> p \<longrightarrow> row E'' ! j = row E' ! j)"
    by auto
  have nr: "numrows E' = 2"
    using editorSelectSyntaxHighlight_inv [OF a] s by (auto simp add: doc2_def)
  then obtain E'' where "editorUpdateSyntax E' 0 = Some E''"
    and "hl (row E'' ! 0) = replicate (length (render (row E' ! 0))) HL_NORMAL"
    using h by force
  then have "\<exists>E''. editorUpdateSyntax E' 0 = Some E'' \<and> hl (row E'' ! 0) = [HL_NORMAL, HL_NORMAL]"
    using r by (simp add: doc2_def numeral_2_eq_2)
  then show ?thesis using s e n r by auto
qed

section \<open>Keywords\<close>

text \<open>The keyword rule as the specification words it. A keyword with the trailing
  \<open>|\<close> is secondary and its text is what precedes the \<open>|\<close>; a keyword matches the
  upcoming render text when its text is a literal prefix of it and is followed by a
  separator or by the end of the line.\<close>

definition kw_secondary :: "string \<Rightarrow> bool" where
  "kw_secondary kw = (kw \<noteq> [] \<and> last kw = CHR ''|'')"

definition kw_text :: "string \<Rightarrow> string" where
  "kw_text kw = (if kw_secondary kw then butlast kw else kw)"

definition kw_class :: "string \<Rightarrow> editorHighlight" where
  "kw_class kw = (if kw_secondary kw then HL_KEYWORD2 else HL_KEYWORD1)"

definition kw_matches :: "string \<Rightarrow> string \<Rightarrow> bool" where
  "kw_matches kw r =
     (prefix (kw_text kw) r
      \<and> (length r = length (kw_text kw) \<or> is_separator (r ! length (kw_text kw))))"

definition spec_keyword :: "string list \<Rightarrow> string \<Rightarrow> (nat \<times> editorHighlight) option" where
  "spec_keyword kws r =
     map_option (\<lambda>kw. (length (kw_text kw), kw_class kw)) (List.find (\<lambda>kw. kw_matches kw r) kws)"

lemma strncmp_eq_prefix:
  "n \<le> length b \<Longrightarrow> NUL \<notin> set (take n b) \<Longrightarrow> strncmp_eq a b n = prefix (take n b) a"
proof (induction n arbitrary: a b)
  case 0
  then show ?case by simp
next
  case (Suc n)
  then obtain y b' where b: "b = y # b'" by (cases b) auto
  have y: "y \<noteq> NUL" and n: "n \<le> length b'" and nn: "NUL \<notin> set (take n b')"
    using Suc.prems b by auto
  show ?case
  proof (cases a)
    case Nil
    then show ?thesis using b y by auto
  next
    case (Cons x a')
    then show ?thesis using b y Suc.IH [OF n nn, of a'] by auto
  qed
qed

lemma strlen_no_NUL: "NUL \<notin> set s \<Longrightarrow> strlen s = length s"
  by (induction s) (auto simp: strlen_Cons)

lemma peek_drop: "peek (drop n r) = (if n < length r then r ! n else NUL)"
  by (cases "drop n r") (auto simp: Cons_nth_drop_Suc [symmetric] dest: drop_eq_Nil [THEN iffD1] simp: hd_drop_conv_nth)

lemma keyword_at_one:
  assumes "kw \<noteq> []" and "NUL \<notin> set kw"
  shows "keyword_at (kw # kws) r
         = (if kw_matches kw r then Some (length (kw_text kw), kw_class kw) else keyword_at kws r)"
proof -
  have sl: "strlen kw = length kw" using assms(2) by (rule strlen_no_NUL)
  have k2: "(0 < length kw \<and> kw ! (length kw - 1) = CHR ''|'') = kw_secondary kw"
    using assms(1) by (simp add: kw_secondary_def last_conv_nth)
  let ?klen = "if kw_secondary kw then length kw - 1 else length kw"
  have tk: "take ?klen kw = kw_text kw" by (simp add: kw_text_def butlast_conv_take)
  have len: "length (kw_text kw) = ?klen" by (simp add: kw_text_def)
  have nn: "NUL \<notin> set (take ?klen kw)" using assms(2) by (meson in_set_takeD)
  have cmp: "strncmp_eq r kw ?klen = prefix (kw_text kw) r"
    using strncmp_eq_prefix [of ?klen kw r] nn tk by simp
  have m: "(strncmp_eq r kw ?klen \<and> is_separator (peek (drop ?klen r))) = kw_matches kw r"
  proof (cases "prefix (kw_text kw) r")
    case False
    then show ?thesis using cmp by (simp add: kw_matches_def)
  next
    case True
    then have le: "?klen \<le> length r" using len prefix_length_le by metis
    have "is_separator (peek (drop ?klen r))
          = (length r = ?klen \<or> is_separator (r ! ?klen))"
      using le by (auto simp add: peek_drop is_separator_def)
    then show ?thesis using cmp True len by (simp add: kw_matches_def)
  qed
  show ?thesis
  proof (cases "kw_secondary kw")
    case True
    then have a: "0 < length kw" and b: "kw ! (length kw - 1) = CHR ''|''" using k2 by simp_all
    have c: "(strncmp_eq r kw (length kw - 1) \<and> is_separator (peek (drop (length kw - 1) r)))
             = kw_matches kw r" using m True by simp
    have d: "length (kw_text kw) = length kw - 1" using len True by simp
    show ?thesis
      using a b c by (simp add: Let_def sl d kw_class_def True)
  next
    case False
    then have a: "\<not> (0 < length kw \<and> kw ! (length kw - 1) = CHR ''|'')" using k2 by simp
    have c: "(strncmp_eq r kw (length kw) \<and> is_separator (peek (drop (length kw) r)))
             = kw_matches kw r" using m False by simp
    have d: "length (kw_text kw) = length kw" using len False by simp
    show ?thesis
      using a c by (auto simp add: Let_def sl d kw_class_def False)
  qed
qed

lemma keyword_at_spec:
  "\<forall>kw \<in> set kws. kw \<noteq> [] \<and> NUL \<notin> set kw \<Longrightarrow> keyword_at kws r = spec_keyword kws r"
proof (induction kws)
  case Nil
  then show ?case by (simp add: spec_keyword_def)
next
  case (Cons kw kws)
  then have "keyword_at kws r = spec_keyword kws r" by simp
  moreover have "kw \<noteq> []" and "NUL \<notin> set kw" using Cons.prems by simp_all
  ultimately show ?case
    by (simp add: keyword_at_one spec_keyword_def del: keyword_at.simps)
qed

lemma nth_memset_hl:
  "i + n \<le> length h \<Longrightarrow> k < length h \<Longrightarrow>
   memset_hl h i v n ! k = (if i \<le> k \<and> k < i + n then v else h ! k)"
  by (auto simp add: memset_hl_def nth_append)

text \<open>A highlight buffer \<open>h'\<close> has no keyword class that \<open>h\<close> does not have at
  the same place.\<close>

definition keeps_keywords :: "editorHighlight list \<Rightarrow> editorHighlight list \<Rightarrow> bool" where
  "keeps_keywords h h' =
     (\<forall>k<length h. h' ! k \<in> {HL_KEYWORD1, HL_KEYWORD2} \<longrightarrow> h' ! k = h ! k)"

text \<open>An iteration writes no keyword class.\<close>

definition no_new_keyword :: "scan_state \<Rightarrow> bool \<times> scan_state \<Rightarrow> bool" where
  "no_new_keyword st r = keeps_keywords (s_hl st) (s_hl (snd r))"

lemma keeps_keywords_refl: "keeps_keywords h h"
  by (simp add: keeps_keywords_def)

lemma keeps_keywords_update:
  "v \<notin> {HL_KEYWORD1, HL_KEYWORD2} \<Longrightarrow> keeps_keywords h h' \<Longrightarrow> keeps_keywords h (h'[i := v])"
  unfolding keeps_keywords_def
  by (metis length_list_update list_update_beyond not_le nth_list_update_eq nth_list_update_neq)

lemma keeps_keywords_memset:
  "v \<notin> {HL_KEYWORD1, HL_KEYWORD2} \<Longrightarrow> i + n \<le> length h' \<Longrightarrow> length h' = length h \<Longrightarrow>
   keeps_keywords h h' \<Longrightarrow> keeps_keywords h (memset_hl h' i v n)"
  unfolding keeps_keywords_def by (simp add: nth_memset_hl)

lemma scan_step_off_boundary:
  assumes np: "\<not> prev_sep st" and i: "s_i st < length rnd" and h: "length (s_hl st) = length rnd"
  shows "no_new_keyword st (scan_step syn rnd st)"
proof -
  let ?h = "s_hl st"
  have kh: "keyword_here syn rnd st = None" using np by (simp add: keyword_here_def)
  have mce: "mce_at syn rnd st \<Longrightarrow> s_i st + strlen (multiline_comment_end syn) \<le> length ?h"
    using strncmp_eq_length [of "drop (s_i st) rnd" "multiline_comment_end syn"
        "strlen (multiline_comment_end syn)"] i h
    by (simp add: mce_at_def Let_def)
  have mcs: "mcs_at syn rnd st \<Longrightarrow> s_i st + strlen (multiline_comment_start syn) \<le> length ?h"
    using strncmp_eq_length [of "drop (s_i st) rnd" "multiline_comment_start syn"
        "strlen (multiline_comment_start syn)"] i h
    by (simp add: mcs_at_def Let_def)
  have r: "keeps_keywords ?h ?h" by (rule keeps_keywords_refl)
  have u: "\<And>v j. v \<notin> {HL_KEYWORD1, HL_KEYWORD2} \<Longrightarrow> keeps_keywords ?h (?h[j := v])"
    by (simp add: keeps_keywords_update r)
  have u2: "keeps_keywords ?h (?h[s_i st := HL_STRING, Suc (s_i st) := HL_STRING])"
    by (intro keeps_keywords_update r) simp_all
  have m: "\<And>v n. v \<notin> {HL_KEYWORD1, HL_KEYWORD2} \<Longrightarrow> s_i st + n \<le> length ?h \<Longrightarrow>
              keeps_keywords ?h (memset_hl ?h (s_i st) v n)"
    using r by (simp add: keeps_keywords_memset)
  have m2: "\<And>n. s_i st + n \<le> length ?h \<Longrightarrow>
              keeps_keywords ?h (memset_hl (?h[s_i st := HL_MLCOMMENT]) (s_i st) HL_MLCOMMENT n)"
    by (intro keeps_keywords_memset u) simp_all
  have sc: "s_i st + (length rnd - s_i st) \<le> length ?h" using i h by simp
  show ?thesis
    apply (simp only: scan_step_def Let_def kh option.case if_distrib [of "no_new_keyword st"])
    apply (simp add: no_new_keyword_def r u u2 m m2 sc mce mcs)
    done
qed

text \<open>A position of the scan at which no comment, string or number rule applies: the
  iteration reaches the keyword test.\<close>

definition plain_position :: "editorSyntax \<Rightarrow> string \<Rightarrow> scan_state \<Rightarrow> bool" where
  "plain_position syn rnd st =
     (\<not> scs_at syn rnd st
      \<and> \<not> (ml_enabled syn st \<and> in_comment st)
      \<and> \<not> (ml_enabled syn st \<and> mcs_at syn rnd st)
      \<and> \<not> (strings_on syn \<and> in_string st \<noteq> NUL)
      \<and> \<not> (strings_on syn \<and> (rnd ! s_i st = CHR 0x22 \<or> rnd ! s_i st = CHR 0x27))
      \<and> \<not> (numbers_on syn \<and> number_at rnd st))"

text \<open>The keywords of a syntax are C strings, none of them empty.\<close>

definition keywords_ok :: "editorSyntax \<Rightarrow> bool" where
  "keywords_ok syn = list_all (\<lambda>kw. kw \<noteq> [] \<and> NUL \<notin> set kw) (syn_keywords syn)"

text \<open>What the specification has an iteration at such a position do: at a separator
  boundary the first matching keyword of the list is given its class over its whole
  length and the scan moves past it; otherwise the character is left as it is and the
  scan moves on by one.\<close>

definition spec_keyword_step :: "editorSyntax \<Rightarrow> string \<Rightarrow> scan_state \<Rightarrow> bool \<times> scan_state" where
  "spec_keyword_step syn rnd st =
     (case (if prev_sep st
            then List.find (\<lambda>kw. kw_matches kw (drop (s_i st) rnd)) (syn_keywords syn)
            else None) of
        Some kw \<Rightarrow>
          (False, st\<lparr>s_hl := take (s_i st) (s_hl st) @ replicate (length (kw_text kw)) (kw_class kw)
                              @ drop (s_i st + length (kw_text kw)) (s_hl st),
                      s_i := s_i st + length (kw_text kw), prev_sep := False\<rparr>)
      | None \<Rightarrow> (False, st\<lparr>s_i := s_i st + 1, prev_sep := is_separator (rnd ! s_i st)\<rparr>))"

lemma scan_step_plain:
  assumes "plain_position syn rnd st"
  shows "scan_step syn rnd st =
     (case keyword_here syn rnd st of
        Some (klen, cls) \<Rightarrow>
          (False, st\<lparr>s_hl := memset_hl (s_hl st) (s_i st) cls klen, s_i := s_i st + klen,
                      prev_sep := False\<rparr>)
      | None \<Rightarrow> (False, st\<lparr>s_i := s_i st + 1, prev_sep := is_separator (rnd ! s_i st)\<rparr>))"
proof -
  have a: "scs_at syn rnd st = False" "(ml_enabled syn st \<and> in_comment st) = False"
    "(ml_enabled syn st \<and> mcs_at syn rnd st) = False"
    "(strings_on syn \<and> in_string st \<noteq> NUL) = False"
    "(strings_on syn \<and> (rnd ! s_i st = CHR 0x22 \<or> rnd ! s_i st = CHR 0x27)) = False"
    "(numbers_on syn \<and> number_at rnd st) = False"
    using assms by (simp_all add: plain_position_def)
  show ?thesis
    by (simp only: scan_step_def Let_def a if_False)
qed

lemma scan_step_keyword:
  assumes "plain_position syn rnd st" and "keywords_ok syn"
  shows "scan_step syn rnd st = spec_keyword_step syn rnd st"
proof -
  have ok: "\<forall>kw \<in> set (syn_keywords syn). kw \<noteq> [] \<and> NUL \<notin> set kw"
    using assms(2) by (simp add: keywords_ok_def list_all_iff)
  have kh: "keyword_here syn rnd st
      = (if prev_sep st
         then map_option (\<lambda>kw. (length (kw_text kw), kw_class kw))
                (List.find (\<lambda>kw. kw_matches kw (drop (s_i st) rnd)) (syn_keywords syn))
         else None)"
    using keyword_at_spec [OF ok] by (simp add: keyword_here_def spec_keyword_def)
  show ?thesis
    unfolding scan_step_plain [OF assms(1)] kh spec_keyword_step_def
    by (simp add: memset_hl_def split: option.split)
qed

lemma kw_matches_fits: "kw_matches kw r \<Longrightarrow> length (kw_text kw) \<le> length r"
  by (simp add: kw_matches_def prefix_length_le)

text \<open>The highlight entries an iteration at a separator boundary gives a matching
  keyword.\<close>

lemma scan_step_writes_keyword:
  assumes pl: "plain_position syn rnd st" and ok: "keywords_ok syn" and ps: "prev_sep st"
    and f: "List.find (\<lambda>kw. kw_matches kw (drop (s_i st) rnd)) (syn_keywords syn) = Some kw"
    and h: "length (s_hl st) = length rnd"
    and k: "s_i st \<le> k" "k < s_i st + length (kw_text kw)"
  shows "s_hl (snd (scan_step syn rnd st)) ! k = kw_class kw"
proof -
  have "kw_matches kw (drop (s_i st) rnd)" using f by (auto simp add: find_Some_iff)
  then have fit: "s_i st + length (kw_text kw) \<le> length (s_hl st)"
    using kw_matches_fits [of kw "drop (s_i st) rnd"] h k by simp
  have "s_hl (snd (scan_step syn rnd st))
        = memset_hl (s_hl st) (s_i st) (kw_class kw) (length (kw_text kw))"
    using scan_step_keyword [OF pl ok] ps f by (simp add: spec_keyword_step_def memset_hl_def)
  then show ?thesis using fit k by (simp add: nth_memset_hl)
qed

text \<open>C5. During a scan the keyword test is reached where no comment, string or number
  rule applies, and there an iteration does what the specification says: only at a
  separator boundary, it takes the first keyword of the syntax's list, in list order,
  whose text is a literal prefix of the upcoming render text and is followed by a
  separator or by the end of the line, gives every character of it
  \<^verbatim>\<open>HL_KEYWORD2\<close> when the keyword carries the trailing \<open>|\<close> and
  \<^verbatim>\<open>HL_KEYWORD1\<close> otherwise, and moves past it; off a boundary an iteration writes no
  keyword class. The keyword loop itself is that first-match search. With the C entry
  of the registry, the row \<open>forward\<close> gets no keyword highlight, in the row \<open>for (x)\<close>
  the three characters of \<open>for\<close> get \<^verbatim>\<open>HL_KEYWORD1\<close>, and in the row \<open>int x\<close> the
  three characters of \<open>int\<close> get \<^verbatim>\<open>HL_KEYWORD2\<close>.\<close>

theorem keyword_classification:
  "((\<forall>kw \<in> set kws. kw \<noteq> [] \<and> NUL \<notin> set kw) \<longrightarrow> keyword_at kws r = spec_keyword kws r)
   \<and> (\<not> prev_sep st \<and> s_i st < length rnd \<and> length (s_hl st) = length rnd
        \<longrightarrow> keyword_here syn rnd st = None \<and> no_new_keyword st (scan_step syn rnd st))
   \<and> (plain_position syn rnd st \<and> keywords_ok syn
        \<longrightarrow> scan_step syn rnd st = spec_keyword_step syn rnd st)
   \<and> (plain_position syn rnd st \<and> keywords_ok syn \<and> prev_sep st
        \<and> length (s_hl st) = length rnd
        \<and> List.find (\<lambda>kw. kw_matches kw (drop (s_i st) rnd)) (syn_keywords syn) = Some kw
        \<longrightarrow> (\<forall>k. s_i st \<le> k \<and> k < s_i st + length (kw_text kw)
               \<longrightarrow> s_hl (snd (scan_step syn rnd st)) ! k
                   = (if kw \<noteq> [] \<and> last kw = CHR ''|'' then HL_KEYWORD2 else HL_KEYWORD1)))
   \<and> s_hl (scan_row (HLDB ! 0) ''forward'' False)
       = [HL_NORMAL, HL_NORMAL, HL_NORMAL, HL_NORMAL, HL_NORMAL, HL_NORMAL, HL_NORMAL]
   \<and> s_hl (scan_row (HLDB ! 0) ''for (x)'' False)
       = [HL_KEYWORD1, HL_KEYWORD1, HL_KEYWORD1, HL_NORMAL, HL_NORMAL, HL_NORMAL, HL_NORMAL]
   \<and> s_hl (scan_row (HLDB ! 0) ''int x'' False)
       = [HL_KEYWORD2, HL_KEYWORD2, HL_KEYWORD2, HL_NORMAL, HL_NORMAL]"
proof (intro conjI impI allI)
  assume "\<forall>kw \<in> set kws. kw \<noteq> [] \<and> NUL \<notin> set kw"
  then show "keyword_at kws r = spec_keyword kws r" by (rule keyword_at_spec)
next
  assume a: "\<not> prev_sep st \<and> s_i st < length rnd \<and> length (s_hl st) = length rnd"
  then show "keyword_here syn rnd st = None" by (simp add: keyword_here_def)
  from a show "no_new_keyword st (scan_step syn rnd st)"
    by (simp add: scan_step_off_boundary)
next
  assume "plain_position syn rnd st \<and> keywords_ok syn"
  then show "scan_step syn rnd st = spec_keyword_step syn rnd st"
    by (simp add: scan_step_keyword)
next
  fix k
  assume a: "plain_position syn rnd st \<and> keywords_ok syn \<and> prev_sep st
        \<and> length (s_hl st) = length rnd
        \<and> List.find (\<lambda>kw. kw_matches kw (drop (s_i st) rnd)) (syn_keywords syn) = Some kw"
    and b: "s_i st \<le> k \<and> k < s_i st + length (kw_text kw)"
  then have "s_hl (snd (scan_step syn rnd st)) ! k = kw_class kw"
    using scan_step_writes_keyword [of syn rnd st kw k] by simp
  then show "s_hl (snd (scan_step syn rnd st)) ! k
      = (if kw \<noteq> [] \<and> last kw = CHR ''|'' then HL_KEYWORD2 else HL_KEYWORD1)"
    by (simp add: kw_class_def kw_secondary_def)
next
  show "s_hl (scan_row (HLDB ! 0) ''forward'' False)
       = [HL_NORMAL, HL_NORMAL, HL_NORMAL, HL_NORMAL, HL_NORMAL, HL_NORMAL, HL_NORMAL]"
    by code_simp
next
  show "s_hl (scan_row (HLDB ! 0) ''for (x)'' False)
       = [HL_KEYWORD1, HL_KEYWORD1, HL_KEYWORD1, HL_NORMAL, HL_NORMAL, HL_NORMAL, HL_NORMAL]"
    by code_simp
next
  show "s_hl (scan_row (HLDB ! 0) ''int x'' False)
       = [HL_KEYWORD2, HL_KEYWORD2, HL_KEYWORD2, HL_NORMAL, HL_NORMAL]"
    by code_simp
qed

text \<open>The scan state inside the identifier \<open>xfor\<close>, after its first character, and the
  scan state at the start of the row \<open>int x\<close>.\<close>

definition inside_xfor :: scan_state where
  "inside_xfor = \<lparr>s_hl = [HL_NORMAL, HL_NORMAL, HL_NORMAL, HL_NORMAL], s_i = 1,
     prev_sep = False, in_string = NUL, in_comment = False\<rparr>"

definition start_int_x :: scan_state where
  "start_int_x = \<lparr>s_hl = [HL_NORMAL, HL_NORMAL, HL_NORMAL, HL_NORMAL, HL_NORMAL], s_i = 0,
     prev_sep = True, in_string = NUL, in_comment = False\<rparr>"

theorem keyword_classification_witness:
  "keyword_at [''for'', ''for.x|''] ''for.x'' = Some (3, HL_KEYWORD1)
   \<and> spec_keyword [''for'', ''for.x|''] ''for.x'' = Some (3, HL_KEYWORD1)
   \<and> keyword_here (HLDB ! 0) ''xfor'' inside_xfor = None
   \<and> no_new_keyword inside_xfor (scan_step (HLDB ! 0) ''xfor'' inside_xfor)
   \<and> scan_step (HLDB ! 0) ''int x'' start_int_x = spec_keyword_step (HLDB ! 0) ''int x'' start_int_x
   \<and> s_hl (snd (scan_step (HLDB ! 0) ''int x'' start_int_x)) ! 2 = HL_KEYWORD2"
proof -
  have a: "\<forall>kw \<in> set [''for'', ''for.x|'']. kw \<noteq> [] \<and> NUL \<notin> set kw"
    by (simp add: NUL_def)
  have b: "\<not> prev_sep inside_xfor \<and> s_i inside_xfor < length ''xfor''
             \<and> length (s_hl inside_xfor) = length ''xfor''"
    by (simp add: inside_xfor_def)
  have c: "keyword_at [''for'', ''for.x|''] ''for.x'' = Some (3, HL_KEYWORD1)"
    by code_simp
  have d: "plain_position (HLDB ! 0) ''int x'' start_int_x" by code_simp
  have e: "keywords_ok (HLDB ! 0)" by code_simp
  have f: "List.find (\<lambda>kw. kw_matches kw (drop (s_i start_int_x) ''int x''))
             (syn_keywords (HLDB ! 0)) = Some ''int|''"
    by code_simp
  have g: "prev_sep start_int_x \<and> length (s_hl start_int_x) = length ''int x''"
    by (simp add: start_int_x_def)
  have h: "s_i start_int_x \<le> 2 \<and> 2 < s_i start_int_x + length (kw_text ''int|'')"
    by (simp add: start_int_x_def kw_text_def kw_secondary_def)
  have first: "keyword_at [''for'', ''for.x|''] ''for.x'' = spec_keyword [''for'', ''for.x|''] ''for.x''
     \<and> keyword_here (HLDB ! 0) ''xfor'' inside_xfor = None
     \<and> no_new_keyword inside_xfor (scan_step (HLDB ! 0) ''xfor'' inside_xfor)"
    using keyword_classification [where kws = "[''for'', ''for.x|'']" and r = "''for.x''"
        and st = inside_xfor and rnd = "''xfor''" and syn = "HLDB ! 0"] a b
    by simp
  note kc = keyword_classification [where st = start_int_x and rnd = "''int x''"
        and syn = "HLDB ! 0" and kw = "''int|''"]
  have s1: "scan_step (HLDB ! 0) ''int x'' start_int_x
        = spec_keyword_step (HLDB ! 0) ''int x'' start_int_x"
    using kc d e by blast
  have "\<forall>k. s_i start_int_x \<le> k \<and> k < s_i start_int_x + length (kw_text ''int|'')
          \<longrightarrow> s_hl (snd (scan_step (HLDB ! 0) ''int x'' start_int_x)) ! k
              = (if ''int|'' \<noteq> [] \<and> last ''int|'' = CHR ''|'' then HL_KEYWORD2 else HL_KEYWORD1)"
    using kc d e f g by blast
  then have s2: "s_hl (snd (scan_step (HLDB ! 0) ''int x'' start_int_x)) ! 2 = HL_KEYWORD2"
    using h by simp
  note second = s1 s2
  show ?thesis using first second c by simp
qed


section \<open>Incremental search\<close>

text \<open>The static variables of \<^verbatim>\<open>editorFindCallback\<close>. \<open>saved_hl\<close> is \<open>None\<close> for the
  NULL pointer.\<close>

record find_state =
  last_match :: int
  direction :: int
  saved_hl_line :: int
  saved_hl :: "editorHighlight list option"

definition ARROW_LEFT :: int where
  "ARROW_LEFT = 1000"

definition ARROW_RIGHT :: int where
  "ARROW_RIGHT = 1001"

definition ARROW_UP :: int where
  "ARROW_UP = 1002"

definition ARROW_DOWN :: int where
  "ARROW_DOWN = 1003"

definition KEY_ENTER :: int where
  "KEY_ENTER = 13"

definition KEY_ESC :: int where
  "KEY_ESC = 27"

text \<open>A buffer read as a C string: the characters before the first NUL.\<close>

definition cstr :: "string \<Rightarrow> string" where
  "cstr s = takeWhile (\<lambda>c. c \<noteq> NUL) s"

text \<open>The first block of \<^verbatim>\<open>editorFindCallback\<close>:
  \<^verbatim>\<open>memcpy(E.row[saved_hl_line].hl, saved_hl, E.row[saved_hl_line].rsize)\<close>, when
  \<^verbatim>\<open>saved_hl\<close> is set. A saved line outside the row array and a saved buffer shorter
  than \<^verbatim>\<open>rsize\<close> are outside what C defines.\<close>

definition find_restore :: "find_state \<times> editorConfig \<Rightarrow> (find_state \<times> editorConfig) option" where
  "find_restore s =
     (let fs = fst s; E = snd s in
      case saved_hl fs of
        None \<Rightarrow> Some (fs, E)
      | Some sv \<Rightarrow>
          if saved_hl_line fs < 0 \<or> int (length (row E)) \<le> saved_hl_line fs then None
          else
            let y = nat (saved_hl_line fs); r = row E ! y; n = length (render r) in
            if length sv < n then None
            else Some (fs\<lparr>saved_hl := None\<rparr>,
                       E\<lparr>row := (row E)[y := r\<lparr>hl := take n sv @ drop n (hl r)\<rparr>]\<rparr>))"

text \<open>The \<^verbatim>\<open>for (i = 0; i < E.numrows; i++)\<close> loop, by the number of iterations left.
  At the first row whose render contains the query the cursor moves there, the row's
  highlight is saved, and the match is overwritten with \<^verbatim>\<open>HL_MATCH\<close>.\<close>

fun find_loop :: "nat \<Rightarrow> string \<Rightarrow> int \<Rightarrow> find_state \<Rightarrow> editorConfig \<Rightarrow> (find_state \<times> editorConfig) option" where
  "find_loop 0 q current fs E = Some (fs, E)"
| "find_loop (Suc n) q current fs E =
     (let c1 = current + direction fs;
          c2 = (if c1 = - 1 then int (numrows E) - 1
                else if c1 = int (numrows E) then 0 else c1)
      in if c2 < 0 \<or> int (length (row E)) \<le> c2 then None
         else
           let r = row E ! nat c2 in
           case strstr (cstr (render r)) q of
             None \<Rightarrow> find_loop n q c2 fs E
           | Some off \<Rightarrow>
               (case editorRowRxToCx E r (int off) of
                  None \<Rightarrow> None
                | Some x \<Rightarrow>
                    if length (hl r) < length (render r) then None
                    else Some (fs\<lparr>last_match := c2, saved_hl_line := c2,
                                  saved_hl := Some (take (length (render r)) (hl r))\<rparr>,
                               E\<lparr>cy := c2, cx := x, rowoff := int (numrows E),
                                 row := (row E)[nat c2 :=
                                   r\<lparr>hl := memset_hl (hl r) off HL_MATCH (strlen q)\<rparr>]\<rparr>)))"

definition editorFindCallback :: "find_state \<times> editorConfig \<Rightarrow> string \<Rightarrow> int \<Rightarrow> (find_state \<times> editorConfig) option" where
  "editorFindCallback s q key =
     (case find_restore s of
        None \<Rightarrow> None
      | Some (fs1, E1) \<Rightarrow>
          if key = KEY_ENTER \<or> key = KEY_ESC
          then Some (fs1\<lparr>last_match := - 1, direction := 1\<rparr>, E1)
          else
            let fs2 = (if key = ARROW_RIGHT \<or> key = ARROW_DOWN then fs1\<lparr>direction := 1\<rparr>
                       else if key = ARROW_LEFT \<or> key = ARROW_UP then fs1\<lparr>direction := - 1\<rparr>
                       else fs1\<lparr>last_match := - 1, direction := 1\<rparr>);
                fs3 = (if last_match fs2 = - 1 then fs2\<lparr>direction := 1\<rparr> else fs2)
            in find_loop (numrows E1) q (last_match fs3) fs3 E1)"

text \<open>A search session: the callback once per key of the prompt, each with the query
  typed so far.\<close>

fun find_session :: "find_state \<times> editorConfig \<Rightarrow> (string \<times> int) list \<Rightarrow> (find_state \<times> editorConfig) option" where
  "find_session s [] = Some s"
| "find_session s ((q, key) # ks) = Option.bind (editorFindCallback s q key) (\<lambda>s'. find_session s' ks)"

definition find_init :: find_state where
  "find_init = \<lparr>last_match = - 1, direction = 1, saved_hl_line = 0, saved_hl = None\<rparr>"

text \<open>The state of a search between two keys: a well-formed document with one highlight
  entry per render character, a last match on a row of the document (or none), and a
  saved highlight, if any, that belongs to a row of the document and has its size.\<close>

definition find_ok :: "find_state \<times> editorConfig \<Rightarrow> bool" where
  "find_ok s =
     (let fs = fst s; E = snd s in
      numrows E = length (row E) \<and> hl_ok E \<and> 0 < tab_stop E
      \<and> - 1 \<le> last_match fs \<and> last_match fs < int (numrows E)
      \<and> (direction fs = 1 \<or> direction fs = - 1)
      \<and> (case saved_hl fs of
            None \<Rightarrow> True
          | Some sv \<Rightarrow> 0 \<le> saved_hl_line fs \<and> saved_hl_line fs < int (numrows E)
              \<and> length sv = length (render (row E ! nat (saved_hl_line fs)))))"

text \<open>The rows with the saved highlight put back.\<close>

definition restored_rows :: "find_state \<times> editorConfig \<Rightarrow> erow list" where
  "restored_rows s =
     (let fs = fst s; E = snd s in
      case saved_hl fs of
        None \<Rightarrow> row E
      | Some sv \<Rightarrow> (row E)[nat (saved_hl_line fs) := (row E ! nat (saved_hl_line fs))\<lparr>hl := sv\<rparr>])"

lemma hl_okD: "hl_ok E \<Longrightarrow> p < length (row E) \<Longrightarrow> length (hl (row E ! p)) = length (render (row E ! p))"
  by (simp add: hl_ok_def list_all_length hl_sized_def)

lemma hl_ok_update:
  "hl_ok E \<Longrightarrow> length h = length (render (row E ! p)) \<Longrightarrow>
   hl_ok (E\<lparr>row := (row E)[p := (row E ! p)\<lparr>hl := h\<rparr>]\<rparr>)"
proof -
  assume a: "hl_ok E" and b: "length h = length (render (row E ! p))"
  have "\<And>n. n < length (row E) \<Longrightarrow> hl_sized ((row E)[p := (row E ! p)\<lparr>hl := h\<rparr>] ! n)"
  proof -
    fix n assume n: "n < length (row E)"
    show "hl_sized ((row E)[p := (row E ! p)\<lparr>hl := h\<rparr>] ! n)"
    proof (cases "n = p")
      case True
      then show ?thesis using n b by (simp add: hl_sized_def)
    next
      case False
      then show ?thesis using n a by (simp add: hl_ok_def list_all_length)
    qed
  qed
  then show ?thesis by (simp add: hl_ok_def list_all_length)
qed

lemma find_restore_ok:
  assumes "find_ok (fs, E)"
  shows "find_restore (fs, E) = Some (fs\<lparr>saved_hl := None\<rparr>, E\<lparr>row := restored_rows (fs, E)\<rparr>)
         \<and> find_ok (fs\<lparr>saved_hl := None\<rparr>, E\<lparr>row := restored_rows (fs, E)\<rparr>)"
proof (cases "saved_hl fs")
  case None
  then have "fs\<lparr>saved_hl := None\<rparr> = fs" by simp
  then show ?thesis
    using assms None by (simp add: find_restore_def restored_rows_def find_ok_def)
next
  case (Some sv)
  let ?y = "nat (saved_hl_line fs)"
  let ?r = "row E ! ?y"
  have nl: "numrows E = length (row E)" and h: "hl_ok E"
    and lo: "0 \<le> saved_hl_line fs" and hi: "saved_hl_line fs < int (numrows E)"
    and len: "length sv = length (render ?r)"
    using assms Some by (simp_all add: find_ok_def)
  have y: "?y < length (row E)" using lo hi nl by simp
  have hr: "length (hl ?r) = length (render ?r)" using h y by (rule hl_okD)
  have cp: "take (length (render ?r)) sv @ drop (length (render ?r)) (hl ?r) = sv"
    using len hr by simp
  have eq: "find_restore (fs, E) = Some (fs\<lparr>saved_hl := None\<rparr>, E\<lparr>row := restored_rows (fs, E)\<rparr>)"
    using Some lo hi nl len cp by (simp add: find_restore_def restored_rows_def Let_def)
  have "hl_ok (E\<lparr>row := (row E)[?y := ?r\<lparr>hl := sv\<rparr>]\<rparr>)"
    using h len by (rule hl_ok_update)
  then have "find_ok (fs\<lparr>saved_hl := None\<rparr>, E\<lparr>row := restored_rows (fs, E)\<rparr>)"
    using assms Some by (simp add: find_ok_def restored_rows_def)
  with eq show ?thesis by simp
qed

lemma rx_to_cx_loop_total: "0 < ts \<Longrightarrow> \<exists>x'. rx_to_cx_loop ts cs x cur rx = Some x'"
  by (induction cs arbitrary: x cur) (auto simp add: Let_def)

lemma strstr_bound: "strstr h n = Some off \<Longrightarrow> off + length n \<le> length h"
proof (induction h arbitrary: off)
  case Nil
  then show ?case by (simp split: if_splits)
next
  case (Cons x xs)
  show ?case
  proof (cases "prefix n (x # xs)")
    case True
    then have "length n \<le> length (x # xs)" by (rule prefix_length_le)
    then show ?thesis using Cons.prems True by simp
  next
    case False
    then obtain o' where "strstr xs n = Some o'" and "off = Suc o'"
      using Cons.prems by auto
    then show ?thesis using Cons.IH [of o'] by simp
  qed
qed

lemma cstr_length: "length (cstr s) \<le> length s"
  by (simp add: cstr_def length_takeWhile_le)

lemma find_loop_ok:
  assumes nl: "numrows E = length (row E)" and h: "hl_ok E" and ts: "0 < tab_stop E"
    and sv: "saved_hl fs = None" and dir: "direction fs = 1 \<or> direction fs = - 1"
    and lm: "- 1 \<le> last_match fs \<and> last_match fs < int (numrows E)"
  shows "(0 \<le> current \<and> current < int (numrows E)) \<or> (current = - 1 \<and> direction fs = 1) \<Longrightarrow>
         0 < numrows E \<or> n = 0 \<Longrightarrow>
         \<exists>s'. find_loop n q current fs E = Some s' \<and> find_ok s' \<and> restored_rows s' = row E"
proof (induction n arbitrary: current)
  case 0
  then show ?case using assms by (simp add: find_ok_def restored_rows_def)
next
  case (Suc n)
  then have pos: "0 < numrows E" by simp
  define c1 where "c1 = current + direction fs"
  define c2 where "c2 = (if c1 = - 1 then int (numrows E) - 1
                else if c1 = int (numrows E) then 0 else c1)"
  have r2: "0 \<le> c2 \<and> c2 < int (numrows E)"
    using Suc.prems(1) dir pos unfolding c2_def c1_def by auto
  let ?y = "nat c2"
  let ?r = "row E ! ?y"
  have y: "?y < length (row E)" using r2 nl by (auto simp add: nat_less_iff)
  have inb: "\<not> (c2 < 0 \<or> int (length (row E)) \<le> c2)" using r2 nl by simp
  have hr: "length (hl ?r) = length (render ?r)" using h y by (rule hl_okD)
  show ?case
  proof (cases "strstr (cstr (render ?r)) q")
    case None
    have "find_loop (Suc n) q current fs E = find_loop n q c2 fs E"
      using inb None by (simp add: Let_def c1_def [symmetric] c2_def [symmetric])
    moreover have "\<exists>s'. find_loop n q c2 fs E = Some s' \<and> find_ok s' \<and> restored_rows s' = row E"
      using Suc.IH [of c2] r2 pos by simp
    ultimately show ?thesis by simp
  next
    case (Some off)
    obtain x where x: "editorRowRxToCx E ?r (int off) = Some x"
      using rx_to_cx_loop_total [OF ts, of "chars ?r" 0 0 "int off"]
      by (auto simp add: editorRowRxToCx_def)
    have "off + length q \<le> length (cstr (render ?r))" using Some by (rule strstr_bound)
    then have fit: "off + strlen q \<le> length (hl ?r)"
      using cstr_length [of "render ?r"] strlen_le_length [of q] hr by linarith
    let ?h' = "memset_hl (hl ?r) off HL_MATCH (strlen q)"
    let ?fs' = "fs\<lparr>last_match := c2, saved_hl_line := c2, saved_hl := Some (take (length (render ?r)) (hl ?r))\<rparr>"
    let ?E' = "E\<lparr>cy := c2, cx := x, rowoff := int (numrows E),
                 row := (row E)[?y := ?r\<lparr>hl := ?h'\<rparr>]\<rparr>"
    have res: "find_loop (Suc n) q current fs E = Some (?fs', ?E')"
      using inb Some x hr by (simp add: Let_def c1_def [symmetric] c2_def [symmetric])
    have lh: "length ?h' = length (render ?r)" using fit hr by (simp add: length_memset_hl)
    have "hl_ok (E\<lparr>row := (row E)[?y := ?r\<lparr>hl := ?h'\<rparr>]\<rparr>)"
      using h lh by (rule hl_ok_update)
    then have hk: "hl_ok ?E'" by (simp add: hl_ok_def)
    have ok: "find_ok (?fs', ?E')"
      using nl hk ts dir r2 y hr by (simp add: find_ok_def)
    have "(row E)[?y := ?r] = row E" by simp
    then have rr: "restored_rows (?fs', ?E') = row E"
      using y hr by (simp add: restored_rows_def)
    show ?thesis using res ok rr by blast
  qed
qed

lemma editorFindCallback_ok:
  assumes "find_ok s"
  shows "\<exists>s'. editorFindCallback s q key = Some s' \<and> find_ok s'
           \<and> restored_rows s' = restored_rows s
           \<and> (key = KEY_ENTER \<or> key = KEY_ESC \<longrightarrow>
                 row (snd s') = restored_rows s \<and> saved_hl (fst s') = None)"
proof -
  obtain fs E where s: "s = (fs, E)" by (cases s)
  let ?fs1 = "fs\<lparr>saved_hl := None\<rparr>"
  let ?E1 = "E\<lparr>row := restored_rows (fs, E)\<rparr>"
  have r: "find_restore s = Some (?fs1, ?E1)" and ok1: "find_ok (?fs1, ?E1)"
    using find_restore_ok [of fs E] assms s by simp_all
  have nl: "numrows ?E1 = length (row ?E1)" and h: "hl_ok ?E1" and ts: "0 < tab_stop ?E1"
    and lm: "- 1 \<le> last_match ?fs1 \<and> last_match ?fs1 < int (numrows ?E1)"
    and dir: "direction ?fs1 = 1 \<or> direction ?fs1 = - 1"
    using ok1 by (simp_all add: find_ok_def)
  show ?thesis
  proof (cases "key = KEY_ENTER \<or> key = KEY_ESC")
    case True
    let ?s' = "(?fs1\<lparr>last_match := - 1, direction := 1\<rparr>, ?E1)"
    have "editorFindCallback s q key = Some ?s'"
      using r True by (simp add: editorFindCallback_def)
    moreover have "find_ok ?s'" using ok1 by (simp add: find_ok_def)
    moreover have "restored_rows ?s' = restored_rows s" by (simp add: restored_rows_def s)
    moreover have "row (snd ?s') = restored_rows s \<and> saved_hl (fst ?s') = None" by (simp add: s)
    ultimately show ?thesis by blast
  next
    case False
    define fs2 where "fs2 = (if key = ARROW_RIGHT \<or> key = ARROW_DOWN then ?fs1\<lparr>direction := 1\<rparr>
                       else if key = ARROW_LEFT \<or> key = ARROW_UP then ?fs1\<lparr>direction := - 1\<rparr>
                       else ?fs1\<lparr>last_match := - 1, direction := 1\<rparr>)"
    define fs3 where "fs3 = (if last_match fs2 = - 1 then fs2\<lparr>direction := 1\<rparr> else fs2)"
    have cb: "editorFindCallback s q key = find_loop (numrows ?E1) q (last_match fs3) fs3 ?E1"
      using r False by (simp add: editorFindCallback_def Let_def fs2_def fs3_def)
    have sv3: "saved_hl fs3 = None" by (simp add: fs3_def fs2_def)
    have dir3: "direction fs3 = 1 \<or> direction fs3 = - 1"
      using dir by (simp add: fs3_def fs2_def)
    have lm3: "- 1 \<le> last_match fs3 \<and> last_match fs3 < int (numrows ?E1)"
      using lm by (simp add: fs3_def fs2_def)
    have cur: "(0 \<le> last_match fs3 \<and> last_match fs3 < int (numrows ?E1))
               \<or> (last_match fs3 = - 1 \<and> direction fs3 = 1)"
      using lm3 by (auto simp add: fs3_def)
    have n0: "0 < numrows ?E1 \<or> numrows ?E1 = 0" by auto
    obtain s' where "find_loop (numrows ?E1) q (last_match fs3) fs3 ?E1 = Some s'"
      and "find_ok s'" and "restored_rows s' = row ?E1"
      using find_loop_ok [OF nl h ts sv3 dir3 lm3 cur n0] by blast
    then show ?thesis using cb False by (simp add: s)
  qed
qed

lemma find_session_ok:
  "find_ok s \<Longrightarrow>
   \<exists>s'. find_session s ks = Some s' \<and> find_ok s' \<and> restored_rows s' = restored_rows s
      \<and> (ks \<noteq> [] \<and> (snd (last ks) = KEY_ENTER \<or> snd (last ks) = KEY_ESC) \<longrightarrow>
            row (snd s') = restored_rows s \<and> saved_hl (fst s') = None)"
proof (induction ks arbitrary: s)
  case Nil
  then show ?case by simp
next
  case (Cons k ks)
  obtain q key where k: "k = (q, key)" by (cases k)
  obtain s1 where c: "editorFindCallback s q key = Some s1" and ok1: "find_ok s1"
    and r1: "restored_rows s1 = restored_rows s"
    and e1: "key = KEY_ENTER \<or> key = KEY_ESC \<longrightarrow>
               row (snd s1) = restored_rows s \<and> saved_hl (fst s1) = None"
    using editorFindCallback_ok [OF Cons.prems, of q key] by blast
  obtain s' where f: "find_session s1 ks = Some s'" and ok': "find_ok s'"
    and r': "restored_rows s' = restored_rows s1"
    and e': "ks \<noteq> [] \<and> (snd (last ks) = KEY_ENTER \<or> snd (last ks) = KEY_ESC) \<longrightarrow>
               row (snd s') = restored_rows s1 \<and> saved_hl (fst s') = None"
    using Cons.IH [OF ok1] by blast
  have fs: "find_session s (k # ks) = Some s'" using c f k by simp
  show ?case
  proof (cases "ks = []")
    case True
    then have "s' = s1" using f by simp
    then show ?thesis using fs ok1 r1 e1 k True by simp
  next
    case False
    then show ?thesis using fs ok' r' r1 e' by simp
  qed
qed

text \<open>C8. A search session that starts with no saved highlight, on a well-formed
  document with highlight arrays of the size of the renders: whatever keys it receives,
  the callback returns each time, and the restore block that opens the next call of the
  callback gives back exactly the rows the session started with, highlight arrays
  included. When the last key is Enter or Escape, the rows after the session are exactly
  the rows before it and no saved highlight is left.\<close>

theorem search_highlight_restored:
  assumes "find_ok (fs, E)" and "saved_hl fs = None"
  shows "\<exists>fs' E'. find_session (fs, E) ks = Some (fs', E')
           \<and> (\<exists>fs'' E''. find_restore (fs', E') = Some (fs'', E'') \<and> row E'' = row E
                  \<and> saved_hl fs'' = None)
           \<and> (ks \<noteq> [] \<and> (snd (last ks) = KEY_ENTER \<or> snd (last ks) = KEY_ESC)
                  \<longrightarrow> row E' = row E \<and> saved_hl fs' = None)"
proof -
  have r0: "restored_rows (fs, E) = row E" using assms(2) by (simp add: restored_rows_def)
  obtain s' where f: "find_session (fs, E) ks = Some s'" and ok: "find_ok s'"
    and r: "restored_rows s' = restored_rows (fs, E)"
    and e: "ks \<noteq> [] \<and> (snd (last ks) = KEY_ENTER \<or> snd (last ks) = KEY_ESC) \<longrightarrow>
              row (snd s') = restored_rows (fs, E) \<and> saved_hl (fst s') = None"
    using find_session_ok [OF assms(1), of ks] by blast
  obtain fs' E' where s': "s' = (fs', E')" by (cases s')
  have "find_restore (fs', E') = Some (fs'\<lparr>saved_hl := None\<rparr>, E'\<lparr>row := restored_rows (fs', E')\<rparr>)"
    using find_restore_ok [of fs' E'] ok s' by simp
  then have "\<exists>fs'' E''. find_restore (fs', E') = Some (fs'', E'') \<and> row E'' = row E
                  \<and> saved_hl fs'' = None"
    using r r0 s' by simp
  then show ?thesis using f e r0 s' by simp
qed

theorem search_highlight_restored_witness:
  "\<exists>fs' E'. find_session (find_init, doc2) [(''b'', 98), (''b'', ARROW_DOWN), (''b'', KEY_ESC)]
               = Some (fs', E')
     \<and> row E' = row doc2 \<and> saved_hl fs' = None"
proof -
  have a: "find_ok (find_init, doc2)"
    by (simp add: find_ok_def find_init_def doc2_def hl_ok_def hl_sized_def)
  have b: "saved_hl find_init = None" by (simp add: find_init_def)
  have c: "[(''b'', 98), (''b'', ARROW_DOWN), (''b'', KEY_ESC)] \<noteq> []
           \<and> (snd (last [(''b'', 98::int), (''b'', ARROW_DOWN), (''b'', KEY_ESC)]) = KEY_ENTER
                \<or> snd (last [(''b'', 98::int), (''b'', ARROW_DOWN), (''b'', KEY_ESC)]) = KEY_ESC)"
    by simp
  from search_highlight_restored [OF a b, of "[(''b'', 98), (''b'', ARROW_DOWN), (''b'', KEY_ESC)]"] c
  show ?thesis by blast
qed

lemma search_overrides_example:
  "map_option (\<lambda>s. map hl (row (snd s))) (editorFindCallback (find_init, doc2) ''b'' 98)
   = Some [[HL_NORMAL, HL_MATCH], [HL_NORMAL]]"
  by code_simp

section \<open>The comment cascade\<close>

text \<open>What \<^verbatim>\<open>editorUpdateSyntax\<close> computes for the row it is given, with a syntax
  active: the scan of the render, seeded with the open-comment flag of the row before.\<close>

definition rescanned :: "editorSyntax \<Rightarrow> erow list \<Rightarrow> nat \<Rightarrow> erow" where
  "rescanned syn rs p =
     (let r = rs ! p;
          st = scan_row syn (render r) (0 < p \<and> hl_open_comment (rs ! (p - 1)))
      in r\<lparr>hl := s_hl st, hl_open_comment := in_comment st\<rparr>)"

lemma editorUpdateSyntax_unfold:
  assumes "idx_ok E" and "p < length (row E)" and "esyntax E = Some syn"
  shows "editorUpdateSyntax E p =
     (if hl_open_comment (rescanned syn (row E) p) \<noteq> hl_open_comment (row E ! p)
         \<and> p + 1 < numrows E
      then (if length (row E) \<le> p + 1 then None
            else editorUpdateSyntax (E\<lparr>row := (row E)[p := rescanned syn (row E) p]\<rparr>) (p + 1))
      else Some (E\<lparr>row := (row E)[p := rescanned syn (row E) p]\<rparr>))"
proof -
  have idxp: "idx (row E ! p) = int p" using assms(1,2) by (rule idx_okD)
  have n1: "nat (int p - 1) = p - 1" by simp
  show ?thesis
    using assms(2,3)
    apply (subst editorUpdateSyntax.simps)
    apply (simp add: Let_def idxp rescanned_def nat_add_distrib n1)
    done
qed

text \<open>On a well-formed document the cascade is as the propagation rule says: the row is
  rescanned; when its open-comment flag keeps its recorded value, or the row is the last
  one, no other row changes; when the flag changes and a next row exists, the result is
  that of highlighting the next row in the document with this row updated, so the next
  row is rescanned with the new flag carried in.\<close>

lemma cascade_on_well_formed:
  assumes d: "doc_ok E" and p: "p < numrows E" and s: "esyntax E = Some syn"
  shows "\<exists>rs. editorUpdateSyntax E p = Some (E\<lparr>row := rs\<rparr>)
           \<and> length rs = length (row E)
           \<and> rs ! p = rescanned syn (row E) p
           \<and> (hl_open_comment (rs ! p) = hl_open_comment (row E ! p) \<or> p + 1 = numrows E
                \<longrightarrow> rs = (row E)[p := rescanned syn (row E) p])
           \<and> (hl_open_comment (rs ! p) \<noteq> hl_open_comment (row E ! p) \<and> p + 1 < numrows E
                \<longrightarrow> editorUpdateSyntax E p
                      = editorUpdateSyntax (E\<lparr>row := (row E)[p := rescanned syn (row E) p]\<rparr>) (p + 1)
                    \<and> rs ! (p + 1) = rescanned syn ((row E)[p := rescanned syn (row E) p]) (p + 1))"
proof -
  have nl: "numrows E = length (row E)" and io: "idx_ok E" using d by (simp_all add: doc_ok_def)
  have pl: "p < length (row E)" using p nl by simp
  let ?r' = "rescanned syn (row E) p"
  let ?E1 = "E\<lparr>row := (row E)[p := ?r']\<rparr>"
  have idr: "idx ?r' = idx (row E ! p)" by (simp add: rescanned_def Let_def)
  have io1: "idx_ok ?E1" using io pl idr by (simp add: idx_ok_def map_update_same)
  note unf = editorUpdateSyntax_unfold [OF io pl s]
  show ?thesis
  proof (cases "hl_open_comment ?r' \<noteq> hl_open_comment (row E ! p) \<and> p + 1 < numrows E")
    case False
    then have "editorUpdateSyntax E p = Some ?E1" using unf by auto
    then show ?thesis using False pl p by auto
  next
    case True
    then have p1: "p + 1 < length (row ?E1)" using nl by simp
    have n1: "numrows ?E1 \<le> length (row ?E1)" using nl by simp
    have s1: "esyntax ?E1 = Some syn" using s by simp
    have rec: "editorUpdateSyntax E p = editorUpdateSyntax ?E1 (p + 1)"
      using unf True nl by auto
    obtain rs where r: "editorUpdateSyntax ?E1 (p + 1) = Some (?E1\<lparr>row := rs\<rparr>)"
      and u: "updated (p + 1) (row ?E1) rs"
      using editorUpdateSyntax_total [OF io1 p1 n1] by blast
    have len: "length rs = length (row E)" using updated_length [OF u] by simp
    have tk: "take (Suc p) rs = take (Suc p) (row ?E1)" using u by (simp add: updated_def)
    have rp: "rs ! p = ?r'"
    proof -
      have "rs ! p = take (Suc p) rs ! p" by simp
      also have "\<dots> = take (Suc p) (row ?E1) ! p" using tk by simp
      also have "\<dots> = ?r'" using pl by simp
      finally show ?thesis .
    qed
    have next_row: "rs ! (p + 1) = rescanned syn (row ?E1) (p + 1)"
    proof -
      note unf1 = editorUpdateSyntax_unfold [OF io1 p1 s1]
      let ?r2 = "rescanned syn (row ?E1) (p + 1)"
      let ?E2 = "?E1\<lparr>row := (row ?E1)[p + 1 := ?r2]\<rparr>"
      have id2: "idx ?r2 = idx (row ?E1 ! (p + 1))" by (simp add: rescanned_def Let_def)
      have io2: "idx_ok ?E2" using io1 p1 id2 by (simp add: idx_ok_def map_update_same)
      show ?thesis
      proof (cases "hl_open_comment ?r2 \<noteq> hl_open_comment (row ?E1 ! (p + 1))
                      \<and> p + 1 + 1 < numrows ?E1")
        case False
        then have "editorUpdateSyntax ?E1 (p + 1) = Some ?E2" using unf1 by auto
        then have "?E1\<lparr>row := rs\<rparr> = ?E2" using r by simp
        then have "row (?E1\<lparr>row := rs\<rparr>) = row ?E2" by (rule arg_cong)
        then have "rs = (row ?E1)[p + 1 := ?r2]" by simp
        then show ?thesis using p1 by simp
      next
        case True
        then have p2: "p + 1 + 1 < length (row ?E2)" using nl by simp
        have n2: "numrows ?E2 \<le> length (row ?E2)" using nl by simp
        have "editorUpdateSyntax ?E1 (p + 1) = editorUpdateSyntax ?E2 (p + 1 + 1)"
          using unf1 True nl by auto
        moreover obtain rs2 where "editorUpdateSyntax ?E2 (p + 1 + 1) = Some (?E2\<lparr>row := rs2\<rparr>)"
          and u2: "updated (p + 1 + 1) (row ?E2) rs2"
          using editorUpdateSyntax_total [OF io2 p2 n2] by blast
        ultimately have "?E1\<lparr>row := rs\<rparr> = ?E2\<lparr>row := rs2\<rparr>" using r by simp
        then have "row (?E1\<lparr>row := rs\<rparr>) = row (?E2\<lparr>row := rs2\<rparr>)" by (rule arg_cong)
        then have eq: "rs = rs2" by simp
        have "take (Suc (Suc p)) rs2 = take (Suc (Suc p)) (row ?E2)"
          using u2 by (simp add: updated_def)
        then have "take (Suc (Suc p)) rs2 ! (p + 1) = take (Suc (Suc p)) (row ?E2) ! (p + 1)"
          by simp
        then have "rs2 ! (p + 1) = row ?E2 ! (p + 1)" by simp
        then show ?thesis using eq p1 by simp
      qed
    qed
    have "?E1\<lparr>row := rs\<rparr> = E\<lparr>row := rs\<rparr>" by simp
    then have "editorUpdateSyntax E p = Some (E\<lparr>row := rs\<rparr>)" using rec r by simp
    then show ?thesis using len rp next_row rec True by auto
  qed
qed

text \<open>The three rows of the propagation example, loaded as a C file, and the same document
  after the two characters of the close marker of row 1 are deleted.\<close>

definition comment_doc :: "editorConfig option" where
  "comment_doc =
     editorOpen initEditor ''t.c''
       (Some (''/* comment'' @ [NL] @ ''still comment */'' @ [NL] @ ''code'' @ [NL]))"

definition comment_doc_opened :: "editorConfig option" where
  "comment_doc_opened =
     Option.bind comment_doc
       (\<lambda>E. Option.bind (editorRowDelChar E 1 15) (\<lambda>E1. editorRowDelChar E1 1 14))"

lemma propagation_example:
  "map_option (\<lambda>E. map (\<lambda>r. (hl_open_comment r, hl r)) (row E)) comment_doc
   = Some [(True, replicate 10 HL_MLCOMMENT),
           (False, replicate 16 HL_MLCOMMENT),
           (False, replicate 4 HL_NORMAL)]"
  by code_simp

lemma close_marker_deleted_cascades:
  "map_option (\<lambda>E. map (\<lambda>r. (chars r, hl_open_comment r, hl r)) (row E)) comment_doc_opened
   = Some [(''/* comment'', True, replicate 10 HL_MLCOMMENT),
           (''still comment '', True, replicate 14 HL_MLCOMMENT),
           (''code'', True, replicate 4 HL_MLCOMMENT)]"
  by code_simp

text \<open>A C file of two rows, the first with a comment marker inside a string literal, and
  the Enter key with the cursor on row 0 at column 5, inside the literal just before the
  marker: \<^verbatim>\<open>editorInsertNewline\<close> inserts the rest of the row as a new row 1, and that
  row, scanned on its own, opens a comment.\<close>

definition split_file :: string where
  "split_file = ''x '' @ [CHR 0x22] @ ''a /* b'' @ [CHR 0x22, NL] @ ''int y;'' @ [NL]"

definition split_doc :: "editorConfig option" where
  "split_doc = editorOpen initEditor ''t.c'' (Some split_file)"

definition split_result :: "editorConfig option" where
  "split_result = Option.bind split_doc (\<lambda>E. editorInsertNewline (E\<lparr>cx := 5\<rparr>))"

text \<open>C1 at this input. After the Enter key the document has three rows; the new row 1
  has its open-comment flag set, changed from the value 0 recorded when the row was
  created, and row 2 exists; yet row 2 still has the highlight of code (the keyword
  \<open>int\<close>), not that of a comment. Highlighting row 2 once more would make it a comment
  throughout: it was left out of the cascade, because \<^verbatim>\<open>editorInsertRow\<close> runs the
  highlighter before it increments \<^verbatim>\<open>E.numrows\<close>.\<close>

theorem insert_row_skips_last_row:
  "map_option (\<lambda>E. (numrows E, map hl_open_comment (row E), chars (row E ! 2), hl (row E ! 2)))
     split_result
   = Some (3, [False, True, False], ''int y;'',
           [HL_KEYWORD2, HL_KEYWORD2, HL_KEYWORD2, HL_NORMAL, HL_NORMAL, HL_NORMAL])
   \<and> map_option (\<lambda>E. hl (row E ! 2)) (Option.bind split_result (\<lambda>E. editorUpdateSyntax E 2))
     = Some [HL_MLCOMMENT, HL_MLCOMMENT, HL_MLCOMMENT, HL_MLCOMMENT, HL_MLCOMMENT, HL_MLCOMMENT]"
  by code_simp

end
